theory Spec2Isabelle
  imports Complex_Main
begin

section \<open>Configuration and constants\<close>

text \<open>The constants of \<^verbatim>\<open>src/extractDependencies.ts\<close>, lines 15 to 19.\<close>

definition OUTPUT_FILE :: string where
  "OUTPUT_FILE = ''../public/data/graph.json''"

definition MAX_RETRIES :: nat where
  "MAX_RETRIES = 5"

definition INITIAL_DELAY_MS :: nat where
  "INITIAL_DELAY_MS = 1000"

section \<open>Types for the graph and the API\<close>

text \<open>
  \<^verbatim>\<open>Node\<close> has the fields \<^verbatim>\<open>id\<close>, \<^verbatim>\<open>name\<close> and \<^verbatim>\<open>type\<close>; \<^verbatim>\<open>ComponentInfo\<close> has the
  same three and the optional \<^verbatim>\<open>version\<close>, so it is the extension of \<^verbatim>\<open>Node\<close> by that
  field. The field \<^verbatim>\<open>id\<close> is written \<open>id'\<close> and \<^verbatim>\<open>type\<close> is written \<open>type'\<close>, away from
  the identity function and the type syntax of HOL.
\<close>

record Node =
  id' :: string
  name :: string
  type' :: string

record ComponentInfo = Node +
  version :: "int option"

record Edge =
  source :: string
  target :: string

record GraphData =
  nodes :: "Node list"
  edges' :: "Edge list"

section \<open>Errors\<close>

text \<open>
  What a \<^verbatim>\<open>catch\<close> clause of the program can receive: an error of the HTTP library,
  with the status of the response when one arrived (\<^verbatim>\<open>error.response.status\<close>) and
  \<open>None\<close> for a failure without response; the program's own \<^verbatim>\<open>ApiError\<close> with its
  message, \<^verbatim>\<open>status\<close> and \<^verbatim>\<open>attempts\<close>; any other exception, by its message.
\<close>

datatype error =
    AxiosError "nat option"
  | ApiError string "nat option" "nat option"
  | OtherError string

text \<open>Decimal rendering of a number inside a template string.\<close>

fun digits :: "nat \<Rightarrow> string" where
  "digits n =
     (if n < 10 then [''0123456789'' ! n]
      else digits (n div 10) @ [''0123456789'' ! (n mod 10)])"

section \<open>The resilient request client\<close>

text \<open>
  \<^verbatim>\<open>requestWithRetry\<close>, lines 78 to 102. The operation \<^verbatim>\<open>requestFn\<close> has an effect each
  time it is called, so it is modelled by the outcome of its \<open>n\<close>-th call, counted from
  1 as \<^verbatim>\<open>attempt\<close> is. \<open>jitter n\<close> is the value of \<^verbatim>\<open>Math.random() * 1000\<close> drawn at
  attempt \<open>n\<close>. The result records the settled promise, the number of calls of
  \<^verbatim>\<open>requestFn\<close> that were made and the delays that were awaited, in milliseconds.
\<close>

record 'a settled =
  outcome :: "error + 'a"
  calls :: nat
  delays :: "real list"

definition retryable :: "nat \<Rightarrow> bool" where
  "retryable status \<longleftrightarrow> status = 503 \<or> status = 504"

definition exhausted_message :: "nat \<Rightarrow> string" where
  "exhausted_message status =
     ''API request failed after '' @ digits MAX_RETRIES @ '' attempts with status ''
       @ digits status @ ''.''"

definition delayMs :: "(nat \<Rightarrow> real) \<Rightarrow> nat \<Rightarrow> real" where
  "delayMs jitter attempt = real INITIAL_DELAY_MS * 2 ^ (attempt - 1) + jitter attempt"

function retry_loop ::
  "(nat \<Rightarrow> error + 'a) \<Rightarrow> (nat \<Rightarrow> real) \<Rightarrow> nat \<Rightarrow> real list \<Rightarrow> 'a settled" where
  "retry_loop requestFn jitter attempt waited =
     (if attempt \<le> MAX_RETRIES then
        (case requestFn attempt of
           Inr response \<Rightarrow> \<lparr>outcome = Inr response, calls = attempt, delays = waited\<rparr>
         | Inl err \<Rightarrow>
             (case err of
                AxiosError (Some status) \<Rightarrow>
                  if retryable status then
                    if attempt = MAX_RETRIES then
                      \<lparr>outcome = Inl (ApiError (exhausted_message status) (Some status) (Some attempt)),
                       calls = attempt, delays = waited\<rparr>
                    else retry_loop requestFn jitter (attempt + 1) (waited @ [delayMs jitter attempt])
                  else \<lparr>outcome = Inl err, calls = attempt, delays = waited\<rparr>
              | _ \<Rightarrow> \<lparr>outcome = Inl err, calls = attempt, delays = waited\<rparr>))
      else
        \<lparr>outcome = Inl (ApiError ''Retry loop completed without success or failure.'' None (Some MAX_RETRIES)),
         calls = attempt - 1, delays = waited\<rparr>)"
  by pat_completeness auto
termination
  by (relation "measure (\<lambda>(requestFn, jitter, attempt, waited). Suc MAX_RETRIES - attempt)") auto

declare digits.simps [simp del]

declare retry_loop.simps [simp del]

definition requestWithRetry :: "(nat \<Rightarrow> error + 'a) \<Rightarrow> (nat \<Rightarrow> real) \<Rightarrow> 'a settled" where
  "requestWithRetry requestFn jitter = retry_loop requestFn jitter 1 []"

text \<open>A failure is transient when the client retries it: a response with status 503 or 504.\<close>

definition transient :: "error + 'a \<Rightarrow> bool" where
  "transient r =
     (case r of
        Inl (AxiosError (Some status)) \<Rightarrow> retryable status
      | _ \<Rightarrow> False)"

section \<open>The remote service\<close>

text \<open>
  The remote service is outside the program. It is a parameter of the model: for each
  request, the outcome of its \<open>n\<close>-th attempt. It is a function of the request, so a
  lookup that the traversal issues twice is answered twice in the same way. The body of a
  metadata response is
  \<^verbatim>\<open>{ name, type, version }\<close>, the version possibly missing. The body of a reference
  query is \<^verbatim>\<open>{ result?: { references?: { componentId }[] }[] }\<close>, each reference
  written as its \<^verbatim>\<open>componentId\<close>; \<open>Malformed\<close> is a body of any other shape, on which the
  flattening expression of line 147 throws.
\<close>

type_synonym MetadataBody = "string \<times> string \<times> int option"

datatype QueryBody =
    Malformed
  | QueryResult "string list option list option"

record remote =
  metadataService :: "string \<Rightarrow> nat \<Rightarrow> error + MetadataBody"
  referenceService :: "string \<Rightarrow> int option \<Rightarrow> nat \<Rightarrow> error + QueryBody"
  jitter :: "nat \<Rightarrow> real"

section \<open>The metadata resolver\<close>

text \<open>\<^verbatim>\<open>getComponentMetadata\<close>, lines 106 to 125; \<open>Inr None\<close> is the returned \<^verbatim>\<open>null\<close>.\<close>

definition not_found :: "error \<Rightarrow> bool" where
  "not_found err =
     (case err of
        AxiosError (Some status) \<Rightarrow> status = 400 \<or> status = 404
      | _ \<Rightarrow> False)"

definition getComponentMetadata :: "remote \<Rightarrow> string \<Rightarrow> error + ComponentInfo option" where
  "getComponentMetadata r componentId =
     (case outcome (requestWithRetry (metadataService r componentId) (jitter r)) of
        Inr (n, t, v) \<Rightarrow> Inr (Some \<lparr>id' = componentId, name = n, type' = t, version = v\<rparr>)
      | Inl err \<Rightarrow> if not_found err then Inr None else Inl err)"

section \<open>The reference resolver\<close>

text \<open>
  \<^verbatim>\<open>getDependencies\<close>, lines 128 to 153. \<open>flatten\<close> is the expression of line 147; the
  \<^verbatim>\<open>catch\<close> clause of line 149 receives the failures of the request and of the flattening.
\<close>

definition flatten :: "QueryBody \<Rightarrow> error + string list" where
  "flatten body =
     (case body of
        Malformed \<Rightarrow> Inl (OtherError ''TypeError'')
      | QueryResult None \<Rightarrow> Inr []
      | QueryResult (Some result) \<Rightarrow>
          Inr (concat (map (\<lambda>r. case r of None \<Rightarrow> [] | Some references \<Rightarrow> references) result)))"

definition getDependencies :: "remote \<Rightarrow> string \<Rightarrow> int option \<Rightarrow> error + string list" where
  "getDependencies r componentId v =
     (case outcome (requestWithRetry (referenceService r componentId v) (jitter r)) of
        Inl err \<Rightarrow> Inr []
      | Inr body \<Rightarrow> (case flatten body of Inl err \<Rightarrow> Inr [] | Inr ids \<Rightarrow> Inr ids))"

section \<open>The traversal\<close>

text \<open>
  The \<^verbatim>\<open>Map\<close> of nodes keeps its entries in insertion order, and \<^verbatim>\<open>set\<close> on a key that is
  present replaces the value in place.
\<close>

fun Map_keys :: "(string \<times> 'v) list \<Rightarrow> string list" where
  "Map_keys [] = []"
| "Map_keys ((k, v) # m) = k # Map_keys m"

definition Map_has :: "(string \<times> 'v) list \<Rightarrow> string \<Rightarrow> bool" where
  "Map_has m k \<longleftrightarrow> k \<in> set (Map_keys m)"

fun Map_set :: "(string \<times> 'v) list \<Rightarrow> string \<Rightarrow> 'v \<Rightarrow> (string \<times> 'v) list" where
  "Map_set [] k v = [(k, v)]"
| "Map_set ((k', v') # m) k v = (if k' = k then (k, v) # m else (k', v') # Map_set m k v)"

definition Map_values :: "(string \<times> 'v) list \<Rightarrow> 'v list" where
  "Map_values m = map snd m"

text \<open>
  \<^verbatim>\<open>findAllDependenciesRecursive\<close>, lines 156 to 187. The program runs on one thread: an
  invocation of \<^verbatim>\<open>_recursiveHelper\<close> runs without interruption up to its next
  \<^verbatim>\<open>await\<close> of a remote call, and several invocations are suspended at such an
  \<^verbatim>\<open>await\<close> at the same time, since \<^verbatim>\<open>dependencyIds.map\<close> starts one for every dependency
  before any of them is awaited. A suspended invocation is a task:
  \<open>AwaitMetadata\<close> is suspended at line 163, \<open>AwaitDependencies\<close> at line 170 (with the
  version it passed). An invocation suspended at line 181 has nothing left to do but to
  settle when its children have, so it is not kept. The state is the two variables of
  the closure, \<^verbatim>\<open>nodesMap\<close> and \<^verbatim>\<open>edges\<close>, the suspended tasks, and the lookups issued
  so far.
\<close>

datatype task =
    AwaitMetadata string
  | AwaitDependencies string "int option"

datatype lookup =
    MetadataLookup string
  | ReferenceLookup string "int option"

record traversal =
  nodesMap :: "(string \<times> Node) list"
  edges :: "Edge list"
  pending :: "task list"
  issued :: "lookup list"

text \<open>
  A call of \<^verbatim>\<open>_recursiveHelper\<close> up to its first \<^verbatim>\<open>await\<close>: the test of line 161, then
  the metadata request of line 163 is issued and the invocation is suspended.
\<close>

definition enter :: "string \<Rightarrow> traversal \<Rightarrow> traversal" where
  "enter componentId s =
     (if Map_has (nodesMap s) componentId then s
      else s\<lparr>pending := pending s @ [AwaitMetadata componentId],
             issued := issued s @ [MetadataLookup componentId]\<rparr>)"

text \<open>The callback of \<^verbatim>\<open>dependencyIds.map\<close>, lines 173 to 179, for one dependency.\<close>

definition visit_dependency :: "string \<Rightarrow> traversal \<Rightarrow> string \<Rightarrow> traversal" where
  "visit_dependency componentId s depId =
     enter depId (s\<lparr>edges := edges s @ [\<lparr>source = componentId, target = depId\<rparr>]\<rparr>)"

text \<open>
  A suspended invocation continues when its remote call has settled: from line 163 to
  the \<^verbatim>\<open>await\<close> of line 170, or from line 170 to the one of line 181. A rejected call
  rejects the invocation.
\<close>

fun resume :: "remote \<Rightarrow> task \<Rightarrow> traversal \<Rightarrow> error + traversal" where
  "resume r (AwaitMetadata componentId) s =
     (case getComponentMetadata r componentId of
        Inl err \<Rightarrow> Inl err
      | Inr None \<Rightarrow> Inr s
      | Inr (Some metadata) \<Rightarrow>
          Inr (s\<lparr>nodesMap := Map_set (nodesMap s) componentId
                    \<lparr>id' = id' metadata, name = name metadata, type' = type' metadata\<rparr>,
                 pending := pending s @ [AwaitDependencies componentId (version metadata)],
                 issued := issued s @ [ReferenceLookup componentId (version metadata)]\<rparr>))"
| "resume r (AwaitDependencies componentId v) s =
     (case getDependencies r componentId v of
        Inl err \<Rightarrow> Inl err
      | Inr dependencyIds \<Rightarrow> Inr (foldl (visit_dependency componentId) s dependencyIds))"

text \<open>
  The order in which the remote calls settle is not the program's choice. One step
  takes the suspended task chosen by the environment (the task at position
  \<open>choice mod length (pending s)\<close>) and continues it.
\<close>

definition step :: "remote \<Rightarrow> nat \<Rightarrow> traversal \<Rightarrow> error + traversal" where
  "step r choice s =
     (if pending s = [] then Inr s
      else let k = choice mod length (pending s)
           in resume r (pending s ! k) (s\<lparr>pending := take k (pending s) @ drop (Suc k) (pending s)\<rparr>))"

text \<open>
  A run follows a schedule, the list of the environment's choices. It is settled when
  no task is suspended: then the promise of the root invocation resolves. It is rejected
  as soon as one invocation is: the rejection passes through every \<^verbatim>\<open>Promise.all\<close> up to
  the root before any other remote call is handled. \<open>Unsettled\<close> is a schedule that ends
  while tasks are suspended.
\<close>

datatype run_result =
    Settled traversal
  | Rejected error
  | Unsettled traversal

fun run :: "remote \<Rightarrow> nat list \<Rightarrow> traversal \<Rightarrow> run_result" where
  "run r [] s = (if pending s = [] then Settled s else Unsettled s)"
| "run r (choice # schedule) s =
     (if pending s = [] then Settled s
      else case step r choice s of
             Inl err \<Rightarrow> Rejected err
           | Inr s' \<Rightarrow> run r schedule s')"

text \<open>The state a run has reached, when it was not rejected.\<close>

fun reached :: "run_result \<Rightarrow> traversal option" where
  "reached (Settled s) = Some s"
| "reached (Unsettled s) = Some s"
| "reached (Rejected err) = None"

definition initial :: traversal where
  "initial = \<lparr>nodesMap = [], edges = [], pending = [], issued = []\<rparr>"

definition findAllDependenciesRecursive :: "remote \<Rightarrow> nat list \<Rightarrow> string \<Rightarrow> run_result" where
  "findAllDependenciesRecursive r schedule rootId = run r schedule (enter rootId initial)"

section \<open>The main block\<close>

text \<open>
  The document written by line 198 is the serialisation of \<^verbatim>\<open>graphData\<close>; it is modelled
  as the tree that \<^verbatim>\<open>JSON.stringify\<close> renders and a JSON parser reads back.
\<close>

datatype json =
    JString string
  | JArray "json list"
  | JObject "(string \<times> json) list"

definition json_of_Node :: "Node \<Rightarrow> json" where
  "json_of_Node n =
     JObject [(''id'', JString (id' n)), (''name'', JString (name n)), (''type'', JString (type' n))]"

definition json_of_Edge :: "Edge \<Rightarrow> json" where
  "json_of_Edge e = JObject [(''source'', JString (source e)), (''target'', JString (target e))]"

definition stringify :: "GraphData \<Rightarrow> json" where
  "stringify g =
     JObject [(''nodes'', JArray (map json_of_Node (nodes g))),
              (''edges'', JArray (map json_of_Edge (edges' g)))]"

text \<open>Reading a parsed document: the keys of an object and the elements of a member array.\<close>

definition keys :: "json \<Rightarrow> string list" where
  "keys j = (case j of JObject members \<Rightarrow> map fst members | _ \<Rightarrow> [])"

definition elements :: "json \<Rightarrow> string \<Rightarrow> json list" where
  "elements j key =
     (case j of
        JObject members \<Rightarrow> (case map_of members key of Some (JArray xs) \<Rightarrow> xs | _ \<Rightarrow> [])
      | _ \<Rightarrow> [])"

text \<open>
  The file system: the content of each file, and whether a path can be written.
  \<^verbatim>\<open>fs.writeFile\<close> replaces the content of the file or fails.
\<close>

record disk =
  files :: "string \<rightharpoonup> json"
  writable :: "string \<Rightarrow> bool"

definition writeFile :: "disk \<Rightarrow> string \<Rightarrow> json \<Rightarrow> error + disk" where
  "writeFile d path content =
     (if writable d path then Inr (d\<lparr>files := (files d)(path \<mapsto> content)\<rparr>)
      else Inl (OtherError ''writeFile''))"

text \<open>
  The main block, lines 193 to 207: the exit status of the process, the disk it leaves,
  the two counts of the summary line when it is printed, and the error reported when
  the run is fatal. The result is \<open>None\<close> while the traversal is unsettled.
\<close>

record ending =
  exit_status :: nat
  disk_after :: disk
  summary :: "(nat \<times> nat) option"
  fatal :: "error option"

definition main :: "remote \<Rightarrow> nat list \<Rightarrow> string \<Rightarrow> disk \<Rightarrow> ending option" where
  "main r schedule ROOT_COMPONENT_ID d =
     (case findAllDependenciesRecursive r schedule ROOT_COMPONENT_ID of
        Unsettled s \<Rightarrow> None
      | Rejected err \<Rightarrow>
          Some \<lparr>exit_status = 1, disk_after = d, summary = None, fatal = Some err\<rparr>
      | Settled s \<Rightarrow>
          (let nodesArray = Map_values (nodesMap s);
               graphData = \<lparr>nodes = nodesArray, edges' = edges s\<rparr>
           in case writeFile d OUTPUT_FILE (stringify graphData) of
                Inl err \<Rightarrow>
                  Some \<lparr>exit_status = 1, disk_after = d, summary = None, fatal = Some err\<rparr>
              | Inr d' \<Rightarrow>
                  Some \<lparr>exit_status = 0, disk_after = d',
                        summary = Some (length nodesArray, length (edges s)), fatal = None\<rparr>))"

section \<open>Quantities and invariants of the traversal\<close>

text \<open>
  The references a lookup finds, and their number: owed by a suspended task that awaits
  them, found by a lookup that was issued.
\<close>

definition references_of :: "remote \<Rightarrow> string \<Rightarrow> int option \<Rightarrow> string list" where
  "references_of r c v = (case getDependencies r c v of Inr ds \<Rightarrow> ds | Inl err \<Rightarrow> [])"

fun references_owed :: "remote \<Rightarrow> task \<Rightarrow> nat" where
  "references_owed r (AwaitMetadata c) = 0"
| "references_owed r (AwaitDependencies c v) = length (references_of r c v)"

fun references_found :: "remote \<Rightarrow> lookup \<Rightarrow> nat" where
  "references_found r (MetadataLookup c) = 0"
| "references_found r (ReferenceLookup c v) = length (references_of r c v)"

text \<open>
  The properties that every step of the traversal keeps. The remote is a function of the
  request, so a lookup that is issued twice is answered twice in the same way.
\<close>

definition keys_distinct :: "traversal \<Rightarrow> bool" where
  "keys_distinct s \<longleftrightarrow> distinct (Map_keys (nodesMap s))"

definition nodes_resolved :: "remote \<Rightarrow> traversal \<Rightarrow> bool" where
  "nodes_resolved r s \<longleftrightarrow>
     (\<forall>(k, n) \<in> set (nodesMap s). \<exists>md. getComponentMetadata r k = Inr (Some md) \<and>
        n = \<lparr>id' = id' md, name = name md, type' = type' md\<rparr>)"

definition sources_present :: "traversal \<Rightarrow> bool" where
  "sources_present s \<longleftrightarrow>
     (\<forall>e \<in> set (edges s). Map_has (nodesMap s) (source e)) \<and>
     (\<forall>c v. AwaitDependencies c v \<in> set (pending s) \<longrightarrow> Map_has (nodesMap s) c) \<and>
     (\<forall>c v. ReferenceLookup c v \<in> set (issued s) \<longrightarrow> Map_has (nodesMap s) c)"

definition targets_accounted :: "remote \<Rightarrow> traversal \<Rightarrow> bool" where
  "targets_accounted r s \<longleftrightarrow>
     (\<forall>e \<in> set (edges s). Map_has (nodesMap s) (target e) \<or> AwaitMetadata (target e) \<in> set (pending s)
        \<or> getComponentMetadata r (target e) = Inr None)"

definition references_recorded :: "remote \<Rightarrow> traversal \<Rightarrow> bool" where
  "references_recorded r s \<longleftrightarrow>
     (\<forall>c v ds. ReferenceLookup c v \<in> set (issued s) \<longrightarrow> getDependencies r c v = Inr ds \<longrightarrow>
        AwaitDependencies c v \<in> set (pending s) \<or> (\<forall>d \<in> set ds. \<lparr>source = c, target = d\<rparr> \<in> set (edges s)))"

definition lookups_accounted :: "remote \<Rightarrow> traversal \<Rightarrow> bool" where
  "lookups_accounted r s \<longleftrightarrow>
     (\<forall>c. MetadataLookup c \<in> set (issued s) \<longrightarrow>
        AwaitMetadata c \<in> set (pending s) \<or> Map_has (nodesMap s) c \<or> getComponentMetadata r c = Inr None) \<and>
     (\<forall>c. AwaitMetadata c \<in> set (pending s) \<longrightarrow> MetadataLookup c \<in> set (issued s)) \<and>
     (\<forall>c. Map_has (nodesMap s) c \<longrightarrow> MetadataLookup c \<in> set (issued s))"

definition edges_counted :: "remote \<Rightarrow> traversal \<Rightarrow> bool" where
  "edges_counted r s \<longleftrightarrow>
     length (edges s) + sum_list (map (references_owed r) (pending s)) = sum_list (map (references_found r) (issued s))"

definition edges_justified :: "remote \<Rightarrow> traversal \<Rightarrow> bool" where
  "edges_justified r s \<longleftrightarrow>
     (\<forall>e \<in> set (edges s). \<exists>v. ReferenceLookup (source e) v \<in> set (issued s) \<and>
        target e \<in> set (references_of r (source e) v)) \<and>
     (\<forall>c v. ReferenceLookup c v \<in> set (issued s) \<longrightarrow>
        (\<exists>md. getComponentMetadata r c = Inr (Some md) \<and> version md = v)) \<and>
     (\<forall>c v. AwaitDependencies c v \<in> set (pending s) \<longrightarrow> ReferenceLookup c v \<in> set (issued s)) \<and>
     (\<forall>c. Map_has (nodesMap s) c \<longrightarrow> (\<exists>v. ReferenceLookup c v \<in> set (issued s)))"


section \<open>Example services and runs\<close>

text \<open>
  A remote given by two tables, each request answered the same way at every attempt: an
  identifier without metadata entry is not found, one without reference entry has a body
  without result.
\<close>

definition table_remote ::
  "(string \<times> (error + MetadataBody)) list \<Rightarrow> (string \<times> (error + QueryBody)) list \<Rightarrow> remote" where
  "table_remote metas refs =
     \<lparr>metadataService =
        (\<lambda>c n. case map_of metas c of Some a \<Rightarrow> a | None \<Rightarrow> Inl (AxiosError (Some 404))),
      referenceService =
        (\<lambda>c v n. case map_of refs c of Some a \<Rightarrow> a | None \<Rightarrow> Inr (QueryResult None)),
      jitter = (\<lambda>n. 0)\<rparr>"

text \<open>
  The scenario of the specification: the root refers to \<open>A\<close>, which resolves, and to
  \<open>B\<close>, which is not found.
\<close>

definition example :: remote where
  "example =
     table_remote
       [(''R'', Inr (''Root'', ''Process'', Some 1)), (''A'', Inr (''A'', ''Connector'', Some 1))]
       [(''R'', Inr (QueryResult (Some [Some [''A'', ''B'']])))]"

definition example_settled :: traversal where
  "example_settled =
      \<lparr>nodesMap =
         [(''R'', \<lparr>id' = ''R'', name = ''Root'', type' = ''Process''\<rparr>),
          (''A'', \<lparr>id' = ''A'', name = ''A'', type' = ''Connector''\<rparr>)],
       edges = [\<lparr>source = ''R'', target = ''A''\<rparr>, \<lparr>source = ''R'', target = ''B''\<rparr>],
       pending = [],
       issued =
         [MetadataLookup ''R'', ReferenceLookup ''R'' (Some 1), MetadataLookup ''A'',
          MetadataLookup ''B'', ReferenceLookup ''A'' (Some 1)]\<rparr>"

definition example_document :: json where
  "example_document =
     JObject
       [(''nodes'',
         JArray
           [JObject [(''id'', JString ''R''), (''name'', JString ''Root''), (''type'', JString ''Process'')],
            JObject [(''id'', JString ''A''), (''name'', JString ''A''), (''type'', JString ''Connector'')]]),
        (''edges'',
         JArray
           [JObject [(''source'', JString ''R''), (''target'', JString ''A'')],
            JObject [(''source'', JString ''R''), (''target'', JString ''B'')]])]"

text \<open>The content of the output file, and a disk that holds an older output.\<close>

definition written :: "ending option \<Rightarrow> json option" where
  "written e = (case e of None \<Rightarrow> None | Some e \<Rightarrow> files (disk_after e) OUTPUT_FILE)"

definition stale_disk :: disk where
  "stale_disk = \<lparr>files = [OUTPUT_FILE \<mapsto> JString ''stale''], writable = (\<lambda>path. True)\<rparr>"

text \<open>A component without version whose reference query is refused.\<close>

definition unversioned :: remote where
  "unversioned =
     table_remote
       [(''R'', Inr (''Root'', ''Process'', Some 1)), (''U'', Inr (''U'', ''Map'', None))]
       [(''R'', Inr (QueryResult (Some [Some [''U'']]))), (''U'', Inl (AxiosError (Some 400)))]"

definition unversioned_settled :: traversal where
  "unversioned_settled =
      \<lparr>nodesMap =
         [(''R'', \<lparr>id' = ''R'', name = ''Root'', type' = ''Process''\<rparr>),
          (''U'', \<lparr>id' = ''U'', name = ''U'', type' = ''Map''\<rparr>)],
       edges = [\<lparr>source = ''R'', target = ''U''\<rparr>],
       pending = [],
       issued =
         [MetadataLookup ''R'', ReferenceLookup ''R'' (Some 1), MetadataLookup ''U'',
          ReferenceLookup ''U'' None]\<rparr>"

text \<open>A component without version whose reference query is answered.\<close>

definition tolerant :: remote where
  "tolerant =
     table_remote
       [(''U'', Inr (''U'', ''Map'', None)), (''A'', Inr (''A'', ''Connector'', Some 1))]
       [(''U'', Inr (QueryResult (Some [Some [''A'']])))]"

definition tolerant_settled :: traversal where
  "tolerant_settled =
      \<lparr>nodesMap =
         [(''U'', \<lparr>id' = ''U'', name = ''U'', type' = ''Map''\<rparr>),
          (''A'', \<lparr>id' = ''A'', name = ''A'', type' = ''Connector''\<rparr>)],
       edges = [\<lparr>source = ''U'', target = ''A''\<rparr>],
       pending = [],
       issued =
         [MetadataLookup ''U'', ReferenceLookup ''U'' None,
          MetadataLookup ''A'', ReferenceLookup ''A'' (Some 1)]\<rparr>"

text \<open>A reference service that is overloaded, answers a body of another shape, or answers nested groups.\<close>

definition congested :: remote where
  "congested =
     \<lparr>metadataService = (\<lambda>c n. Inr (c, ''Process'', Some 1)),
      referenceService =
        (\<lambda>c v n. if c = ''busy'' then Inl (AxiosError (Some 503))
                  else if c = ''odd'' then Inr Malformed
                  else Inr (QueryResult (Some [Some [''A'', ''B''], None, Some [], Some [''C'']]))),
      jitter = (\<lambda>n. 0)\<rparr>"

text \<open>A cycle of two components, and a component that refers to itself.\<close>

definition cycle :: remote where
  "cycle =
     table_remote
       [(''A'', Inr (''a'', ''Process'', Some 1)), (''B'', Inr (''b'', ''Connector'', Some 2))]
       [(''A'', Inr (QueryResult (Some [Some [''B'']]))), (''B'', Inr (QueryResult (Some [Some [''A'']])))]"

definition self_loop :: remote where
  "self_loop =
     table_remote [(''A'', Inr (''a'', ''Process'', Some 1))]
       [(''A'', Inr (QueryResult (Some [Some [''A'']])))]"

text \<open>
  Two graphs that contain the cycle of \<open>A\<close> and \<open>B\<close>: one in which two result groups of
  \<open>A\<close> both name \<open>B\<close>, one in which \<open>A\<close> also reaches \<open>B\<close> through \<open>C\<close>.
\<close>

definition doubled_cycle :: remote where
  "doubled_cycle =
     table_remote
       [(''A'', Inr (''a'', ''Process'', Some 1)), (''B'', Inr (''b'', ''Connector'', Some 2))]
       [(''A'', Inr (QueryResult (Some [Some [''B''], Some [''B'']]))),
        (''B'', Inr (QueryResult (Some [Some [''A'']])))]"

definition detour_cycle :: remote where
  "detour_cycle =
     table_remote
       [(''A'', Inr (''a'', ''Process'', Some 1)), (''B'', Inr (''b'', ''Connector'', Some 2)),
        (''C'', Inr (''c'', ''Map'', Some 3))]
       [(''A'', Inr (QueryResult (Some [Some [''B'', ''C'']]))),
        (''B'', Inr (QueryResult (Some [Some [''A'']]))),
        (''C'', Inr (QueryResult (Some [Some [''B'']])))]"



text \<open>A diamond: two paths from the root to \<open>C\<close>.\<close>

definition diamond :: remote where
  "diamond =
     table_remote
       [(''R'', Inr (''Root'', ''Process'', Some 1)), (''A'', Inr (''A'', ''Connector'', Some 1)),
        (''B'', Inr (''B'', ''Connector'', Some 1)), (''C'', Inr (''C'', ''Map'', Some 1))]
       [(''R'', Inr (QueryResult (Some [Some [''A'', ''B'']]))),
        (''A'', Inr (QueryResult (Some [Some [''C'']]))),
        (''B'', Inr (QueryResult (Some [Some [''C'']]))),
        (''C'', Inr (QueryResult (Some [Some [''D'']])))]"

section \<open>Properties of the resilient request client\<close>

lemma transient_iff:
  "transient r \<longleftrightarrow> (\<exists>status. r = Inl (AxiosError (Some status)) \<and> retryable status)"
  by (auto simp: transient_def split: sum.splits error.splits option.splits)

lemma retry_loop_success:
  "attempt \<le> MAX_RETRIES \<Longrightarrow> requestFn attempt = Inr v \<Longrightarrow>
   retry_loop requestFn rnd attempt waited = \<lparr>outcome = Inr v, calls = attempt, delays = waited\<rparr>"
  by (subst retry_loop.simps) simp

lemma retry_loop_transient:
  "attempt < MAX_RETRIES \<Longrightarrow> transient (requestFn attempt) \<Longrightarrow>
   retry_loop requestFn rnd attempt waited =
     retry_loop requestFn rnd (Suc attempt) (waited @ [delayMs rnd attempt])"
  by (subst retry_loop.simps) (auto simp: transient_iff)

lemma retry_loop_exhausted:
  "requestFn MAX_RETRIES = Inl (AxiosError (Some status)) \<Longrightarrow> retryable status \<Longrightarrow>
   retry_loop requestFn rnd MAX_RETRIES waited =
     \<lparr>outcome = Inl (ApiError (exhausted_message status) (Some status) (Some MAX_RETRIES)),
      calls = MAX_RETRIES, delays = waited\<rparr>"
  by (subst retry_loop.simps) simp

lemma retry_loop_permanent:
  "attempt \<le> MAX_RETRIES \<Longrightarrow> requestFn attempt = Inl err \<Longrightarrow> \<not> transient (requestFn attempt) \<Longrightarrow>
   retry_loop requestFn rnd attempt waited = \<lparr>outcome = Inl err, calls = attempt, delays = waited\<rparr>"
  by (subst retry_loop.simps) (auto simp: transient_def split: error.splits option.splits)

lemma retry_loop_run:
  "n + k \<le> MAX_RETRIES \<Longrightarrow> (\<forall>i. n \<le> i \<and> i < n + k \<longrightarrow> transient (requestFn i)) \<Longrightarrow>
   retry_loop requestFn rnd n waited =
     retry_loop requestFn rnd (n + k) (waited @ map (delayMs rnd) [n..<n + k])"
proof (induction k arbitrary: n waited)
  case 0
  then show ?case by simp
next
  case (Suc k)
  have "retry_loop requestFn rnd n waited =
        retry_loop requestFn rnd (Suc n) (waited @ [delayMs rnd n])"
    using Suc.prems by (intro retry_loop_transient) auto
  also have "\<dots> = retry_loop requestFn rnd (Suc n + k) ((waited @ [delayMs rnd n]) @ map (delayMs rnd) [Suc n..<Suc n + k])"
    using Suc.prems by (intro Suc.IH) auto
  finally show ?case by (simp add: upt_rec[of n])
qed

text \<open>
  Claim C4. An operation that fails with status 503 or 504 on its first \<open>K\<close> calls, with
  \<open>K < 5\<close>, and then succeeds: the client returns that success, the operation was called
  \<open>K + 1\<close> times, and the delays awaited are those of the attempts 1 to \<open>K\<close>. An
  operation that fails with 503 or 504 on each of its five calls: the client fails after
  exactly five calls with an \<^verbatim>\<open>ApiError\<close> carrying the status of the last failure and
  the attempt count 5.
\<close>

theorem retry_bound:
  "(K < MAX_RETRIES \<and> (\<forall>i. 1 \<le> i \<and> i \<le> K \<longrightarrow> transient (requestFn i)) \<and> requestFn (K + 1) = Inr v
      \<longrightarrow> requestWithRetry requestFn rnd =
            \<lparr>outcome = Inr v, calls = K + 1, delays = map (delayMs rnd) [1..<K + 1]\<rparr>)
   \<and> ((\<forall>i. 1 \<le> i \<and> i \<le> MAX_RETRIES \<longrightarrow> transient (requestFn i))
      \<longrightarrow> (\<exists>status. requestFn MAX_RETRIES = Inl (AxiosError (Some status)) \<and>
            requestWithRetry requestFn rnd =
              \<lparr>outcome = Inl (ApiError (exhausted_message status) (Some status) (Some 5)),
               calls = 5, delays = map (delayMs rnd) [1..<5]\<rparr>))"
proof (intro conjI impI)
  assume a: "K < MAX_RETRIES \<and> (\<forall>i. 1 \<le> i \<and> i \<le> K \<longrightarrow> transient (requestFn i)) \<and> requestFn (K + 1) = Inr v"
  have "retry_loop requestFn rnd 1 [] =
        retry_loop requestFn rnd (1 + K) ([] @ map (delayMs rnd) [1..<1 + K])"
    using a by (intro retry_loop_run) auto
  also have "\<dots> = \<lparr>outcome = Inr v, calls = K + 1, delays = map (delayMs rnd) [1..<K + 1]\<rparr>"
    using a by (simp add: retry_loop_success)
  finally show "requestWithRetry requestFn rnd =
            \<lparr>outcome = Inr v, calls = K + 1, delays = map (delayMs rnd) [1..<K + 1]\<rparr>"
    by (simp add: requestWithRetry_def)
next
  assume a: "\<forall>i. 1 \<le> i \<and> i \<le> MAX_RETRIES \<longrightarrow> transient (requestFn i)"
  then have "transient (requestFn MAX_RETRIES)" by (simp add: MAX_RETRIES_def)
  then obtain status where s: "requestFn MAX_RETRIES = Inl (AxiosError (Some status))" "retryable status"
    by (auto simp: transient_iff)
  have "retry_loop requestFn rnd 1 [] =
        retry_loop requestFn rnd (1 + 4) ([] @ map (delayMs rnd) [1..<1 + 4])"
    using a by (intro retry_loop_run) (auto simp: MAX_RETRIES_def)
  also have "\<dots> = \<lparr>outcome = Inl (ApiError (exhausted_message status) (Some status) (Some 5)),
               calls = 5, delays = map (delayMs rnd) [1..<5]\<rparr>"
    using retry_loop_exhausted[of requestFn status rnd "map (delayMs rnd) [1..<5]"] s by (simp add: MAX_RETRIES_def)
  finally show "\<exists>status. requestFn MAX_RETRIES = Inl (AxiosError (Some status)) \<and>
            requestWithRetry requestFn rnd =
              \<lparr>outcome = Inl (ApiError (exhausted_message status) (Some status) (Some 5)),
               calls = 5, delays = map (delayMs rnd) [1..<5]\<rparr>"
    using s by (simp add: requestWithRetry_def)
qed

theorem retry_bound_witness:
  "requestWithRetry (\<lambda>n. if n \<le> 2 then Inl (AxiosError (Some 503)) else Inr (7::nat)) (\<lambda>n. 250) =
     \<lparr>outcome = Inr 7, calls = 3, delays = [1250, 2250]\<rparr>
   \<and> requestWithRetry (\<lambda>n. Inl (AxiosError (Some 504)) :: error + nat) (\<lambda>n. 250) =
     \<lparr>outcome = Inl (ApiError ''API request failed after 5 attempts with status 504.'' (Some 504) (Some 5)),
      calls = 5, delays = [1250, 2250, 4250, 8250]\<rparr>"
proof -
  let ?f = "\<lambda>n::nat. if n \<le> 2 then Inl (AxiosError (Some 503)) else Inr (7::nat)"
  let ?g = "\<lambda>n::nat. Inl (AxiosError (Some 504)) :: error + nat"
  have up3: "map (delayMs (\<lambda>n. 250)) [1..<2 + 1] = [1250, 2250]"
    and up5: "map (delayMs (\<lambda>n. 250)) [1..<5] = [1250, 2250, 4250, 8250]"
    by (simp_all add: upt_conv_Cons delayMs_def INITIAL_DELAY_MS_def)
  have d: "exhausted_message 504 = ''API request failed after 5 attempts with status 504.''"
    by (simp add: exhausted_message_def MAX_RETRIES_def digits.simps)
  have h1: "2 < MAX_RETRIES \<and> (\<forall>i. 1 \<le> i \<and> i \<le> 2 \<longrightarrow> transient (?f i)) \<and> ?f (2 + 1) = Inr 7"
    by (simp add: MAX_RETRIES_def transient_def retryable_def)
  have h2: "\<forall>i. 1 \<le> i \<and> i \<le> MAX_RETRIES \<longrightarrow> transient (?g i)"
    by (simp add: transient_def retryable_def)
  have a: "requestWithRetry ?f (\<lambda>n. 250) = \<lparr>outcome = Inr 7, calls = 3, delays = [1250, 2250]\<rparr>"
    using retry_bound [of 2 ?f 7 "\<lambda>n. 250", THEN conjunct1, THEN mp, OF h1] by (simp only: up3) simp
  obtain status where s: "?g MAX_RETRIES = Inl (AxiosError (Some status))"
    "requestWithRetry ?g (\<lambda>n. 250) =
       \<lparr>outcome = Inl (ApiError (exhausted_message status) (Some status) (Some 5)),
        calls = 5, delays = map (delayMs (\<lambda>n. 250)) [1..<5]\<rparr>"
    using retry_bound [of 0 ?g 0 "\<lambda>n. 250", THEN conjunct2, THEN mp, OF h2] by blast
  from s(1) have "status = 504" by simp
  with s(2) have b: "requestWithRetry ?g (\<lambda>n. 250) =
     \<lparr>outcome = Inl (ApiError ''API request failed after 5 attempts with status 504.'' (Some 504) (Some 5)),
      calls = 5, delays = [1250, 2250, 4250, 8250]\<rparr>"
    by (simp only: up5 d)
  from a b show ?thesis by (rule conjI)
qed

text \<open>
  Claim C5. When the first call of the operation fails and the failure is not a response
  with status 503 or 504 (a not-found response, any other status, a failure without
  response, any other exception), the client fails with that same error after exactly one
  call, and no delay was awaited.
\<close>

theorem no_retry_on_permanent_failure:
  "requestFn 1 = Inl err \<Longrightarrow> \<not> transient (requestFn 1) \<Longrightarrow>
   requestWithRetry requestFn rnd = \<lparr>outcome = Inl err, calls = 1, delays = []\<rparr>"
  unfolding requestWithRetry_def by (rule retry_loop_permanent) (auto simp: MAX_RETRIES_def)

theorem no_retry_on_permanent_failure_witness:
  "requestWithRetry (\<lambda>n. Inl (AxiosError (Some 404)) :: error + nat) (\<lambda>n. 250) =
     \<lparr>outcome = Inl (AxiosError (Some 404)), calls = 1, delays = []\<rparr>
   \<and> requestWithRetry (\<lambda>n. Inl (AxiosError None) :: error + nat) (\<lambda>n. 250) =
     \<lparr>outcome = Inl (AxiosError None), calls = 1, delays = []\<rparr>"
proof -
  have n1: "\<not> transient (Inl (AxiosError (Some 404)) :: error + nat)"
    and n2: "\<not> transient (Inl (AxiosError None) :: error + nat)"
    by (simp_all add: transient_def retryable_def)
  show ?thesis
    using no_retry_on_permanent_failure [of "\<lambda>n. Inl (AxiosError (Some 404)) :: error + nat", OF refl n1]
      no_retry_on_permanent_failure [of "\<lambda>n. Inl (AxiosError None) :: error + nat", OF refl n2]
    by blast
qed

section \<open>The node map and the steps of the traversal\<close>

lemma getDependencies_total: "\<exists>ids. getDependencies r c v = Inr ids"
  by (simp add: getDependencies_def split: sum.splits)

lemma Map_keys_set:
  "Map_keys (Map_set m k v) = (if k \<in> set (Map_keys m) then Map_keys m else Map_keys m @ [k])"
  by (induction m) auto

lemma Map_has_set [simp]: "Map_has (Map_set m k v) k' \<longleftrightarrow> k' = k \<or> Map_has m k'"
  by (auto simp: Map_has_def Map_keys_set)

lemma Map_keys_length [simp]: "length (Map_keys m) = length m"
  by (induction m) auto

lemma Map_set_entries: "(k', v') \<in> set (Map_set m k v) \<Longrightarrow> (k', v') = (k, v) \<or> (k', v') \<in> set m"
  by (induction m) (auto split: if_splits)

lemma visit_all:
  "foldl (visit_dependency c) s ds =
     s\<lparr>edges := edges s @ map (\<lambda>d. \<lparr>source = c, target = d\<rparr>) ds,
       pending := pending s @ map AwaitMetadata (filter (\<lambda>d. \<not> Map_has (nodesMap s) d) ds),
       issued := issued s @ map MetadataLookup (filter (\<lambda>d. \<not> Map_has (nodesMap s) d) ds)\<rparr>"
  by (induction ds arbitrary: s) (simp_all add: visit_dependency_def enter_def)

lemma step_cases:
  assumes "pending s \<noteq> []" and "step r choice s = Inr s'"
  obtains
    (absent) c before after where
      "pending s = before @ AwaitMetadata c # after"
      "getComponentMetadata r c = Inr None"
      "s' = s\<lparr>pending := before @ after\<rparr>"
  | (node) c md before after where
      "pending s = before @ AwaitMetadata c # after"
      "getComponentMetadata r c = Inr (Some md)"
      "s' = s\<lparr>nodesMap := Map_set (nodesMap s) c \<lparr>id' = id' md, name = name md, type' = type' md\<rparr>,
              pending := before @ after @ [AwaitDependencies c (version md)],
              issued := issued s @ [ReferenceLookup c (version md)]\<rparr>"
  | (refs) c v ds before after where
      "pending s = before @ AwaitDependencies c v # after"
      "getDependencies r c v = Inr ds"
      "s' = s\<lparr>edges := edges s @ map (\<lambda>d. \<lparr>source = c, target = d\<rparr>) ds,
              pending := before @ after @ map AwaitMetadata (filter (\<lambda>d. \<not> Map_has (nodesMap s) d) ds),
              issued := issued s @ map MetadataLookup (filter (\<lambda>d. \<not> Map_has (nodesMap s) d) ds)\<rparr>"
proof -
  define k where "k = choice mod length (pending s)"
  define before where "before = take k (pending s)"
  define after where "after = drop (Suc k) (pending s)"
  have k: "k < length (pending s)" using assms(1) by (simp add: k_def)
  have split: "pending s = before @ (pending s ! k) # after"
    unfolding before_def after_def using k by (rule id_take_nth_drop)
  have res: "resume r (pending s ! k) (s\<lparr>pending := before @ after\<rparr>) = Inr s'"
    using assms by (simp add: step_def k_def before_def after_def Let_def)
  show thesis
  proof (cases "pending s ! k")
    case (AwaitMetadata c)
    show ?thesis
    proof (cases "getComponentMetadata r c")
      case (Inl err)
      with res AwaitMetadata show ?thesis by simp
    next
      case (Inr found)
      show ?thesis
      proof (cases found)
        case None
        with res AwaitMetadata Inr split show ?thesis by (intro absent[of before c after]) auto
      next
        case (Some md)
        with res AwaitMetadata Inr split show ?thesis by (intro node[of before c after md]) auto
      qed
    qed
  next
    case (AwaitDependencies c v)
    obtain ds where ds: "getDependencies r c v = Inr ds" using getDependencies_total by blast
    with res AwaitDependencies split show ?thesis
      by (intro refs[of before c v after ds]) (auto simp: visit_all)
  qed
qed

section \<open>Invariants\<close>

lemma run_reached_induct:
  assumes "reached (run r schedule s0) = Some s" and "P s0"
    and "\<And>s choice s'. P s \<Longrightarrow> pending s \<noteq> [] \<Longrightarrow> step r choice s = Inr s' \<Longrightarrow> P s'"
  shows "P s"
  using assms(1,2)
proof (induction schedule arbitrary: s0)
  case Nil
  then show ?case by (auto split: if_splits)
next
  case (Cons choice schedule)
  show ?case
  proof (cases "pending s0 = []")
    case True
    with Cons.prems show ?thesis by simp
  next
    case False
    with Cons.prems obtain s1 where s1: "step r choice s0 = Inr s1" "reached (run r schedule s1) = Some s"
      by (auto split: sum.splits)
    from assms(3)[OF Cons.prems(2) False s1(1)] have "P s1" .
    with Cons.IH s1(2) show ?thesis by blast
  qed
qed

lemma run_settled_pending: "run r schedule s0 = Settled s \<Longrightarrow> pending s = []"
  by (induction schedule arbitrary: s0) (auto split: if_splits sum.splits)

lemma Map_has_entry: "Map_has m k \<Longrightarrow> \<exists>v. (k, v) \<in> set m"
  unfolding Map_has_def by (induction m) force+

lemma enter_initial:
  "enter rootId initial = \<lparr>nodesMap = [], edges = [], pending = [AwaitMetadata rootId], issued = [MetadataLookup rootId]\<rparr>"
  by (simp add: enter_def initial_def Map_has_def)

lemma step_keys_distinct:
  "keys_distinct s \<Longrightarrow> pending s \<noteq> [] \<Longrightarrow> step r choice s = Inr s' \<Longrightarrow> keys_distinct s'"
  by (erule (1) step_cases) (auto simp: keys_distinct_def Map_keys_set)

lemma step_nodes_resolved:
  "nodes_resolved r s \<Longrightarrow> pending s \<noteq> [] \<Longrightarrow> step r choice s = Inr s' \<Longrightarrow> nodes_resolved r s'"
  by (erule (1) step_cases) (auto simp: nodes_resolved_def dest!: Map_set_entries)

lemma step_sources_present:
  "sources_present s \<Longrightarrow> pending s \<noteq> [] \<Longrightarrow> step r choice s = Inr s' \<Longrightarrow> sources_present s'"
  by (erule (1) step_cases) (auto simp: sources_present_def image_iff)

lemma step_targets_accounted:
  "targets_accounted r s \<Longrightarrow> pending s \<noteq> [] \<Longrightarrow> step r choice s = Inr s' \<Longrightarrow> targets_accounted r s'"
  by (erule (1) step_cases) (auto simp: targets_accounted_def image_iff)

lemma step_references_recorded:
  "references_recorded r s \<Longrightarrow> pending s \<noteq> [] \<Longrightarrow> step r choice s = Inr s' \<Longrightarrow> references_recorded r s'"
proof (erule (1) step_cases)
  fix c before after
  assume "references_recorded r s" "pending s = before @ AwaitMetadata c # after"
    "s' = s\<lparr>pending := before @ after\<rparr>"
  then show "references_recorded r s'"
    unfolding references_recorded_def by auto
next
  fix c and md :: ComponentInfo and before after
  assume "references_recorded r s" "pending s = before @ AwaitMetadata c # after"
    "s' = s\<lparr>nodesMap := Map_set (nodesMap s) c \<lparr>id' = id' md, name = name md, type' = type' md\<rparr>,
              pending := before @ after @ [AwaitDependencies c (version md)],
              issued := issued s @ [ReferenceLookup c (version md)]\<rparr>"
  then show "references_recorded r s'"
    unfolding references_recorded_def by auto
next
  fix c v ds before after
  assume inv: "references_recorded r s" and p: "pending s = before @ AwaitDependencies c v # after"
    and ds: "getDependencies r c v = Inr ds"
    and s': "s' = s\<lparr>edges := edges s @ map (\<lambda>d. \<lparr>source = c, target = d\<rparr>) ds,
              pending := before @ after @ map AwaitMetadata (filter (\<lambda>d. \<not> Map_has (nodesMap s) d) ds),
              issued := issued s @ map MetadataLookup (filter (\<lambda>d. \<not> Map_has (nodesMap s) d) ds)\<rparr>"
  show "references_recorded r s'"
    unfolding references_recorded_def
  proof (intro allI impI)
    fix ca va dsa
    assume l: "ReferenceLookup ca va \<in> set (issued s')" and dsa: "getDependencies r ca va = Inr dsa"
    from l s' have l0: "ReferenceLookup ca va \<in> set (issued s)" by auto
    show "AwaitDependencies ca va \<in> set (pending s') \<or>
          (\<forall>d\<in>set dsa. \<lparr>source = ca, target = d\<rparr> \<in> set (edges s'))"
    proof (cases "ca = c \<and> va = v")
      case True
      with ds dsa have "dsa = ds" by simp
      with True s' show ?thesis by (simp add: image_iff)
    next
      case False
      from inv l0 dsa have "AwaitDependencies ca va \<in> set (pending s) \<or>
          (\<forall>d\<in>set dsa. \<lparr>source = ca, target = d\<rparr> \<in> set (edges s))"
        unfolding references_recorded_def by blast
      with False p s' show ?thesis by auto
    qed
  qed
qed

lemma step_lookups_accounted:
  "lookups_accounted r s \<Longrightarrow> pending s \<noteq> [] \<Longrightarrow> step r choice s = Inr s' \<Longrightarrow> lookups_accounted r s'"
  by (erule (1) step_cases) (auto simp: lookups_accounted_def image_iff)

lemma references_owed_metadata [simp]: "sum_list (map (references_owed r \<circ> AwaitMetadata) cs) = 0"
  by (induction cs) auto

lemma references_found_metadata [simp]: "sum_list (map (references_found r \<circ> MetadataLookup) cs) = 0"
  by (induction cs) auto

lemma step_edges_counted:
  "edges_counted r s \<Longrightarrow> pending s \<noteq> [] \<Longrightarrow> step r choice s = Inr s' \<Longrightarrow> edges_counted r s'"
  by (erule (1) step_cases) (auto simp: edges_counted_def references_of_def)

lemma step_edges_justified:
  "edges_justified r s \<Longrightarrow> pending s \<noteq> [] \<Longrightarrow> step r choice s = Inr s' \<Longrightarrow> edges_justified r s'"
proof (erule (1) step_cases)
  fix c before after
  assume "edges_justified r s" "pending s = before @ AwaitMetadata c # after"
    "s' = s\<lparr>pending := before @ after\<rparr>"
  then show "edges_justified r s'"
    unfolding edges_justified_def by auto
next
  fix c and md :: ComponentInfo and before after
  assume "edges_justified r s" "pending s = before @ AwaitMetadata c # after"
    "getComponentMetadata r c = Inr (Some md)"
    "s' = s\<lparr>nodesMap := Map_set (nodesMap s) c \<lparr>id' = id' md, name = name md, type' = type' md\<rparr>,
              pending := before @ after @ [AwaitDependencies c (version md)],
              issued := issued s @ [ReferenceLookup c (version md)]\<rparr>"
  then show "edges_justified r s'"
    unfolding edges_justified_def by simp blast
next
  fix c v ds before after
  assume inv: "edges_justified r s" and p: "pending s = before @ AwaitDependencies c v # after"
    and ds: "getDependencies r c v = Inr ds"
    and s': "s' = s\<lparr>edges := edges s @ map (\<lambda>d. \<lparr>source = c, target = d\<rparr>) ds,
              pending := before @ after @ map AwaitMetadata (filter (\<lambda>d. \<not> Map_has (nodesMap s) d) ds),
              issued := issued s @ map MetadataLookup (filter (\<lambda>d. \<not> Map_has (nodesMap s) d) ds)\<rparr>"
  from inv p have l: "ReferenceLookup c v \<in> set (issued s)"
    unfolding edges_justified_def by simp
  have new: "\<exists>v. ReferenceLookup (source e) v \<in> set (issued s') \<and> target e \<in> set (references_of r (source e) v)"
    if "e \<in> set (edges s')" for e
  proof (cases "e \<in> set (edges s)")
    case True
    with inv s' show ?thesis unfolding edges_justified_def by auto
  next
    case False
    with that s' obtain d where "d \<in> set ds" "e = \<lparr>source = c, target = d\<rparr>" by auto
    with l ds s' show ?thesis by (auto simp: references_of_def)
  qed
  from inv p s' have rest: 
     "(\<forall>c v. ReferenceLookup c v \<in> set (issued s') \<longrightarrow>
        (\<exists>md. getComponentMetadata r c = Inr (Some md) \<and> version md = v)) \<and>
     (\<forall>c v. AwaitDependencies c v \<in> set (pending s') \<longrightarrow> ReferenceLookup c v \<in> set (issued s')) \<and>
     (\<forall>c. Map_has (nodesMap s') c \<longrightarrow> (\<exists>v. ReferenceLookup c v \<in> set (issued s')))"
    unfolding edges_justified_def by auto
  with new show "edges_justified r s'"
    unfolding edges_justified_def by blast
qed

lemma reached_invariants:
  assumes "reached (findAllDependenciesRecursive r schedule rootId) = Some s"
  shows "keys_distinct s" and "nodes_resolved r s" and "sources_present s"
    and "targets_accounted r s" and "references_recorded r s" and "lookups_accounted r s"
    and "edges_counted r s" and "edges_justified r s"
proof -
  note start = assms [unfolded findAllDependenciesRecursive_def]
  show "keys_distinct s"
    by (rule run_reached_induct [OF start, where P = "keys_distinct"])
      (simp add: enter_initial keys_distinct_def, erule (2) step_keys_distinct)
  show "nodes_resolved r s"
    by (rule run_reached_induct [OF start, where P = "nodes_resolved r"])
      (simp add: enter_initial nodes_resolved_def, erule (2) step_nodes_resolved)
  show "sources_present s"
    by (rule run_reached_induct [OF start, where P = "sources_present"])
      (simp add: enter_initial sources_present_def Map_has_def, erule (2) step_sources_present)
  show "targets_accounted r s"
    by (rule run_reached_induct [OF start, where P = "targets_accounted r"])
      (simp add: enter_initial targets_accounted_def, erule (2) step_targets_accounted)
  show "references_recorded r s"
    by (rule run_reached_induct [OF start, where P = "references_recorded r"])
      (simp add: enter_initial references_recorded_def, erule (2) step_references_recorded)
  show "lookups_accounted r s"
    by (rule run_reached_induct [OF start, where P = "lookups_accounted r"])
      (simp add: enter_initial lookups_accounted_def Map_has_def, erule (2) step_lookups_accounted)
  show "edges_counted r s"
    by (rule run_reached_induct [OF start, where P = "edges_counted r"])
      (simp add: enter_initial edges_counted_def, erule (2) step_edges_counted)
  show "edges_justified r s"
    by (rule run_reached_induct [OF start, where P = "edges_justified r"])
      (simp add: enter_initial edges_justified_def Map_has_def, erule (2) step_edges_justified)
qed

section \<open>Evaluating runs on the example services\<close>

lemma steady_outcome:
  "outcome (requestWithRetry (\<lambda>n. a) rnd) =
     (case a of
        Inl (AxiosError (Some status)) \<Rightarrow>
          if retryable status then Inl (ApiError (exhausted_message status) (Some status) (Some 5)) else a
      | _ \<Rightarrow> a)"
proof (cases "transient a")
  case True
  then obtain status where a: "a = Inl (AxiosError (Some status))" "retryable status"
    by (auto simp: transient_iff)
  have "retry_loop (\<lambda>n. a) rnd 1 [] = retry_loop (\<lambda>n. a) rnd (1 + 4) ([] @ map (delayMs rnd) [1..<1 + 4])"
    using True by (intro retry_loop_run) (auto simp: MAX_RETRIES_def)
  also have "\<dots> = \<lparr>outcome = Inl (ApiError (exhausted_message status) (Some status) (Some 5)),
               calls = 5, delays = map (delayMs rnd) [1..<5]\<rparr>"
    using retry_loop_exhausted [of "\<lambda>n. a" status rnd "map (delayMs rnd) [1..<5]"] a
    by (simp add: MAX_RETRIES_def)
  finally show ?thesis using a by (simp add: requestWithRetry_def)
next
  case False
  show ?thesis
  proof (cases a)
    case (Inl err)
    with False have "retry_loop (\<lambda>n. a) rnd 1 [] = \<lparr>outcome = Inl err, calls = 1, delays = []\<rparr>"
      by (intro retry_loop_permanent) (auto simp: MAX_RETRIES_def)
    with Inl False show ?thesis
      by (auto simp: requestWithRetry_def transient_def split: error.splits option.splits)
  next
    case (Inr v)
    then have "retry_loop (\<lambda>n. a) rnd 1 [] = \<lparr>outcome = Inr v, calls = 1, delays = []\<rparr>"
      by (intro retry_loop_success) (auto simp: MAX_RETRIES_def)
    with Inr show ?thesis by (simp add: requestWithRetry_def)
  qed
qed

lemmas evaluate = step_def getComponentMetadata_def getDependencies_def
  flatten_def visit_dependency_def enter_def Map_has_def initial_def not_found_def retryable_def
  table_remote_def steady_outcome findAllDependenciesRecursive_def

lemma example_run:
  "findAllDependenciesRecursive example [0, 0, 0, 0, 0] ''R'' = Settled example_settled"
  by (simp add: evaluate example_def example_settled_def)

section \<open>Properties of the traversal\<close>

lemma metadata_id: "getComponentMetadata r c = Inr (Some md) \<Longrightarrow> id' md = c"
  by (auto simp: getComponentMetadata_def split: sum.splits if_splits)

lemma metadata_absent:
  "getComponentMetadata r c = Inr None \<longleftrightarrow>
     (\<exists>err. outcome (requestWithRetry (metadataService r c) (jitter r)) = Inl err \<and> not_found err)"
  by (auto simp: getComponentMetadata_def split: sum.splits if_splits)

lemma settled_reached: "run_result = Settled s \<Longrightarrow> reached run_result = Some s"
  by simp

lemma settled_no_pending:
  "findAllDependenciesRecursive r schedule rootId = Settled s \<Longrightarrow> pending s = []"
  unfolding findAllDependenciesRecursive_def by (rule run_settled_pending)

lemma nodes_ids: "nodes_resolved r s \<Longrightarrow> map id' (Map_values (nodesMap s)) = Map_keys (nodesMap s)"
proof -
  have "(\<forall>(k, n) \<in> set m. \<exists>md :: ComponentInfo. getComponentMetadata r k = Inr (Some md) \<and>
        n = \<lparr>id' = id' md, name = name md, type' = type' md\<rparr>) \<Longrightarrow> map id' (Map_values m) = Map_keys m" for m
    by (induction m) (auto simp: Map_values_def dest: metadata_id)
  then show "nodes_resolved r s \<Longrightarrow> map id' (Map_values (nodesMap s)) = Map_keys (nodesMap s)"
    unfolding nodes_resolved_def by blast
qed

text \<open>
  Claim C3. When the metadata request for \<open>X\<close> ends with a response of status 400 or 404,
  the metadata resolver returns the absence value and no error; in every settled run, \<open>X\<close>
  is not a key of the node map and no node carries its id, no reference lookup was issued
  for \<open>X\<close>, and for every identifier \<open>P\<close> whose references were looked up and contain \<open>X\<close>,
  the edge from \<open>P\<close> to \<open>X\<close> is in the edge list.
\<close>

theorem not_found_pruning:
  assumes "outcome (requestWithRetry (metadataService r X) (jitter r)) = Inl (AxiosError (Some status))"
    and "status = 400 \<or> status = 404"
    and "findAllDependenciesRecursive r schedule rootId = Settled s"
  shows "getComponentMetadata r X = Inr None
       \<and> \<not> Map_has (nodesMap s) X
       \<and> X \<notin> set (map id' (Map_values (nodesMap s)))
       \<and> (\<forall>v. ReferenceLookup X v \<notin> set (issued s))
       \<and> (\<forall>P v. ReferenceLookup P v \<in> set (issued s) \<and> X \<in> set (references_of r P v)
            \<longrightarrow> \<lparr>source = P, target = X\<rparr> \<in> set (edges s))"
proof -
  note inv = reached_invariants [OF settled_reached [OF assms(3)]]
  have none: "getComponentMetadata r X = Inr None"
    using assms(1,2) by (auto simp: getComponentMetadata_def not_found_def)
  have absent: "\<not> Map_has (nodesMap s) X"
  proof
    assume "Map_has (nodesMap s) X"
    then obtain n where "(X, n) \<in> set (nodesMap s)" by (blast dest: Map_has_entry)
    with inv(2) none show False unfolding nodes_resolved_def by auto
  qed
  have ids: "X \<notin> set (map id' (Map_values (nodesMap s)))"
    using absent nodes_ids [OF inv(2)] by (simp add: Map_has_def)
  have lookups: "\<forall>v. ReferenceLookup X v \<notin> set (issued s)"
    using inv(3) absent unfolding sources_present_def by blast
  have recorded: "\<lparr>source = P, target = X\<rparr> \<in> set (edges s)"
    if "ReferenceLookup P v \<in> set (issued s)" "X \<in> set (references_of r P v)" for P v
  proof -
    obtain ds where ds: "getDependencies r P v = Inr ds" using getDependencies_total by blast
    with that(2) have "X \<in> set ds" by (simp add: references_of_def)
    with inv(5) that(1) ds settled_no_pending [OF assms(3)] show ?thesis
      unfolding references_recorded_def by fastforce
  qed
  from none absent ids lookups recorded show ?thesis by blast
qed

theorem not_found_pruning_witness:
  "outcome (requestWithRetry (metadataService example ''B'') (jitter example)) = Inl (AxiosError (Some 404))
   \<and> findAllDependenciesRecursive example [0, 0, 0, 0, 0] ''R'' = Settled example_settled
   \<and> getComponentMetadata example ''B'' = Inr None
   \<and> \<not> Map_has (nodesMap example_settled) ''B''
   \<and> ReferenceLookup ''B'' (Some 1) \<notin> set (issued example_settled)
   \<and> ReferenceLookup ''R'' (Some 1) \<in> set (issued example_settled)
   \<and> ''B'' \<in> set (references_of example ''R'' (Some 1))
   \<and> \<lparr>source = ''R'', target = ''B''\<rparr> \<in> set (edges example_settled)"
proof -
  have h1: "outcome (requestWithRetry (metadataService example ''B'') (jitter example)) = Inl (AxiosError (Some 404))"
    by (simp add: example_def table_remote_def steady_outcome retryable_def)
  have h2: "(404::nat) = 400 \<or> (404::nat) = 404" by simp
  have l: "ReferenceLookup ''R'' (Some 1) \<in> set (issued example_settled)"
    by (simp add: example_settled_def)
  have m: "''B'' \<in> set (references_of example ''R'' (Some 1))"
    by (simp add: references_of_def evaluate example_def)
  from not_found_pruning [OF h1 h2 example_run] h1 example_run l m show ?thesis by blast
qed

lemma step_edges_grow: "step r choice s1 = Inr s2 \<Longrightarrow> \<exists>added. edges s2 = edges s1 @ added"
proof (cases "pending s1 = []")
  case True
  assume "step r choice s1 = Inr s2"
  with True show ?thesis by (simp add: step_def)
next
  case False
  assume "step r choice s1 = Inr s2"
  with False show ?thesis by (rule step_cases) auto
qed

text \<open>
  Claim C7. In every settled run, the source of every edge is a key of the node map; the
  target of an edge is missing from the node map only when the metadata request for that
  target failed with a not-found error; and no step of the traversal removes an edge: the
  edge list after a step is the one before it with edges added at the end.
\<close>

theorem edge_endpoints:
  assumes "findAllDependenciesRecursive r schedule rootId = Settled s"
  shows "(\<forall>e \<in> set (edges s). Map_has (nodesMap s) (source e))
       \<and> (\<forall>e \<in> set (edges s). \<not> Map_has (nodesMap s) (target e) \<longrightarrow>
            (\<exists>err. outcome (requestWithRetry (metadataService r (target e)) (jitter r)) = Inl err
               \<and> not_found err))
       \<and> (\<forall>choice s1 s2. step r choice s1 = Inr s2 \<longrightarrow> (\<exists>added. edges s2 = edges s1 @ added))"
proof -
  note inv = reached_invariants [OF settled_reached [OF assms]]
  have a: "\<forall>e \<in> set (edges s). Map_has (nodesMap s) (source e)"
    using inv(3) unfolding sources_present_def by blast
  have b: "\<forall>e \<in> set (edges s). \<not> Map_has (nodesMap s) (target e) \<longrightarrow>
            (\<exists>err. outcome (requestWithRetry (metadataService r (target e)) (jitter r)) = Inl err
               \<and> not_found err)"
    using inv(4) settled_no_pending [OF assms] unfolding targets_accounted_def metadata_absent by auto
  from a b step_edges_grow show ?thesis by blast
qed

theorem edge_endpoints_witness:
  "findAllDependenciesRecursive example [0, 0, 0, 0, 0] ''R'' = Settled example_settled
   \<and> \<lparr>source = ''R'', target = ''B''\<rparr> \<in> set (edges example_settled)
   \<and> Map_has (nodesMap example_settled) ''R''
   \<and> \<not> Map_has (nodesMap example_settled) ''B''
   \<and> (\<exists>err. outcome (requestWithRetry (metadataService example ''B'') (jitter example)) = Inl err
         \<and> not_found err)
   \<and> step example 0 (enter ''R'' initial) =
        Inr \<lparr>nodesMap = [(''R'', \<lparr>id' = ''R'', name = ''Root'', type' = ''Process''\<rparr>)], edges = [],
             pending = [AwaitDependencies ''R'' (Some 1)],
             issued = [MetadataLookup ''R'', ReferenceLookup ''R'' (Some 1)]\<rparr>
   \<and> (\<exists>added. [] = edges (enter ''R'' initial) @ added)"
proof -
  have e: "\<lparr>source = ''R'', target = ''B''\<rparr> \<in> set (edges example_settled)"
    and n: "\<not> Map_has (nodesMap example_settled) ''B''"
    by (simp_all add: example_settled_def Map_has_def)
  have st: "step example 0 (enter ''R'' initial) =
        Inr \<lparr>nodesMap = [(''R'', \<lparr>id' = ''R'', name = ''Root'', type' = ''Process''\<rparr>)], edges = [],
             pending = [AwaitDependencies ''R'' (Some 1)],
             issued = [MetadataLookup ''R'', ReferenceLookup ''R'' (Some 1)]\<rparr>"
    by (simp add: evaluate example_def)
  note facts = edge_endpoints [OF example_run]
  from facts e have "Map_has (nodesMap example_settled) (source \<lparr>source = ''R'', target = ''B''\<rparr>)"
    by blast
  moreover from facts e n
  have "\<exists>err. outcome (requestWithRetry (metadataService example (target \<lparr>source = ''R'', target = ''B''\<rparr>)) (jitter example)) = Inl err
         \<and> not_found err"
    by (metis (no_types, lifting) Edge.select_convs(2))
  moreover from facts st
  have "\<exists>added. edges \<lparr>nodesMap = [(''R'', \<lparr>id' = ''R'', name = ''Root'', type' = ''Process''\<rparr>)], edges = [],
             pending = [AwaitDependencies ''R'' (Some 1)],
             issued = [MetadataLookup ''R'', ReferenceLookup ''R'' (Some 1)]\<rparr> = edges (enter ''R'' initial) @ added"
    by blast
  ultimately show ?thesis using example_run e n st by simp
qed

text \<open>
  Claim C10. When the metadata request for \<open>c\<close> succeeds with a body without version,
  whatever the reference service then answers: continuing the invocation that awaits the
  metadata of \<open>c\<close> inserts the node and issues the reference lookup with the absent
  version; and in every settled run that looked \<open>c\<close> up, \<open>c\<close> is in the node map with its
  name and type, the reference lookup with the absent version was issued and no other for
  \<open>c\<close>, and an edge from \<open>c\<close> is recorded for every reference this lookup found. When
  moreover the reference request with the absent version fails, the resolver returns the
  empty list, continuing the invocation that awaits these references changes nothing, and
  in every settled run no edge leaves \<open>c\<close>: it is a leaf.
\<close>

theorem missing_version_leaf:
  assumes "outcome (requestWithRetry (metadataService r c) (jitter r)) = Inr (n, t, None)"
  shows "(\<forall>s0. resume r (AwaitMetadata c) s0 =
            Inr (s0\<lparr>nodesMap := Map_set (nodesMap s0) c \<lparr>id' = c, name = n, type' = t\<rparr>,
                    pending := pending s0 @ [AwaitDependencies c None],
                    issued := issued s0 @ [ReferenceLookup c None]\<rparr>))
       \<and> (findAllDependenciesRecursive r schedule rootId = Settled s \<and> MetadataLookup c \<in> set (issued s)
            \<longrightarrow> (c, \<lparr>id' = c, name = n, type' = t\<rparr>) \<in> set (nodesMap s)
              \<and> ReferenceLookup c None \<in> set (issued s)
              \<and> (\<forall>v. ReferenceLookup c v \<in> set (issued s) \<longrightarrow> v = None)
              \<and> (\<forall>d \<in> set (references_of r c None). \<lparr>source = c, target = d\<rparr> \<in> set (edges s)))
       \<and> (outcome (requestWithRetry (referenceService r c None) (jitter r)) = Inl err
            \<longrightarrow> getDependencies r c None = Inr []
              \<and> (\<forall>s0. resume r (AwaitDependencies c None) s0 = Inr s0)
              \<and> (findAllDependenciesRecursive r schedule rootId = Settled s
                    \<longrightarrow> (\<forall>e \<in> set (edges s). source e \<noteq> c)))"
proof (intro conjI impI)
  have md: "getComponentMetadata r c = Inr (Some \<lparr>id' = c, name = n, type' = t, version = None\<rparr>)"
    using assms by (simp add: getComponentMetadata_def)
  show "\<forall>s0. resume r (AwaitMetadata c) s0 =
            Inr (s0\<lparr>nodesMap := Map_set (nodesMap s0) c \<lparr>id' = c, name = n, type' = t\<rparr>,
                    pending := pending s0 @ [AwaitDependencies c None],
                    issued := issued s0 @ [ReferenceLookup c None]\<rparr>)"
    using md by simp
  have only: "v = None"
    if "findAllDependenciesRecursive r schedule rootId = Settled s" "ReferenceLookup c v \<in> set (issued s)" for v
    using reached_invariants(8) [OF settled_reached [OF that(1)]] that(2) md
    unfolding edges_justified_def by fastforce
  {
    assume run: "findAllDependenciesRecursive r schedule rootId = Settled s \<and> MetadataLookup c \<in> set (issued s)"
    then have settled: "findAllDependenciesRecursive r schedule rootId = Settled s"
      and looked: "MetadataLookup c \<in> set (issued s)" by simp_all
    note inv = reached_invariants [OF settled_reached [OF settled]]
    have has: "Map_has (nodesMap s) c"
      using inv(6) looked settled_no_pending [OF settled] md unfolding lookups_accounted_def by auto
    then obtain n' where n': "(c, n') \<in> set (nodesMap s)" by (blast dest: Map_has_entry)
    with inv(2) md have "n' = \<lparr>id' = c, name = n, type' = t\<rparr>"
      unfolding nodes_resolved_def by fastforce
    with n' show "(c, \<lparr>id' = c, name = n, type' = t\<rparr>) \<in> set (nodesMap s)" by simp
    from inv(8) has obtain v where v: "ReferenceLookup c v \<in> set (issued s)"
      unfolding edges_justified_def by blast
    with only [OF settled] show l: "ReferenceLookup c None \<in> set (issued s)" by blast
    from only [OF settled] show "\<forall>v. ReferenceLookup c v \<in> set (issued s) \<longrightarrow> v = None" by blast
    obtain ds where ds: "getDependencies r c None = Inr ds" using getDependencies_total by blast
    with inv(5) l settled_no_pending [OF settled]
    have "\<forall>d \<in> set ds. \<lparr>source = c, target = d\<rparr> \<in> set (edges s)"
      unfolding references_recorded_def by fastforce
    with ds show "\<forall>d \<in> set (references_of r c None). \<lparr>source = c, target = d\<rparr> \<in> set (edges s)"
      by (simp add: references_of_def)
  }
  {
    assume fails: "outcome (requestWithRetry (referenceService r c None) (jitter r)) = Inl err"
    then show ds: "getDependencies r c None = Inr []"
      by (simp add: getDependencies_def)
    then show "\<forall>s0. resume r (AwaitDependencies c None) s0 = Inr s0" by simp
    {
      assume settled: "findAllDependenciesRecursive r schedule rootId = Settled s"
      note inv = reached_invariants [OF settled_reached [OF settled]]
      show "\<forall>e \<in> set (edges s). source e \<noteq> c"
      proof
        fix e assume e: "e \<in> set (edges s)"
        show "source e \<noteq> c"
        proof
          assume "source e = c"
          with inv(8) e obtain v where "ReferenceLookup c v \<in> set (issued s)"
            "target e \<in> set (references_of r c v)"
            unfolding edges_justified_def by blast
          moreover from this only [OF settled] have "v = None" by blast
          ultimately show False using ds by (simp add: references_of_def)
        qed
      qed
    }
  }
qed

theorem missing_version_leaf_witness:
  "outcome (requestWithRetry (metadataService unversioned ''U'') (jitter unversioned)) = Inr (''U'', ''Map'', None)
   \<and> outcome (requestWithRetry (referenceService unversioned ''U'' None) (jitter unversioned)) = Inl (AxiosError (Some 400))
   \<and> findAllDependenciesRecursive unversioned [0, 0, 0, 0] ''R'' = Settled unversioned_settled
   \<and> MetadataLookup ''U'' \<in> set (issued unversioned_settled)
   \<and> (''U'', \<lparr>id' = ''U'', name = ''U'', type' = ''Map''\<rparr>) \<in> set (nodesMap unversioned_settled)
   \<and> ReferenceLookup ''U'' None \<in> set (issued unversioned_settled)
   \<and> ''U'' \<notin> set (map source (edges unversioned_settled))
   \<and> resume unversioned (AwaitDependencies ''U'' None) unversioned_settled = Inr unversioned_settled
   \<and> outcome (requestWithRetry (metadataService tolerant ''U'') (jitter tolerant)) = Inr (''U'', ''Map'', None)
   \<and> references_of tolerant ''U'' None = [''A'']
   \<and> findAllDependenciesRecursive tolerant [0, 0, 0, 0] ''U'' = Settled tolerant_settled
   \<and> MetadataLookup ''U'' \<in> set (issued tolerant_settled)
   \<and> (''U'', \<lparr>id' = ''U'', name = ''U'', type' = ''Map''\<rparr>) \<in> set (nodesMap tolerant_settled)
   \<and> ReferenceLookup ''U'' None \<in> set (issued tolerant_settled)
   \<and> \<lparr>source = ''U'', target = ''A''\<rparr> \<in> set (edges tolerant_settled)"
proof -
  have h1: "outcome (requestWithRetry (metadataService unversioned ''U'') (jitter unversioned)) = Inr (''U'', ''Map'', None)"
    by (simp add: unversioned_def table_remote_def steady_outcome)
  have h2: "outcome (requestWithRetry (referenceService unversioned ''U'' None) (jitter unversioned)) = Inl (AxiosError (Some 400))"
    by (simp add: unversioned_def table_remote_def steady_outcome retryable_def)
  have h3: "findAllDependenciesRecursive unversioned [0, 0, 0, 0] ''R'' = Settled unversioned_settled"
    by (simp add: evaluate unversioned_def unversioned_settled_def)
  have h4: "MetadataLookup ''U'' \<in> set (issued unversioned_settled)"
    by (simp add: unversioned_settled_def)
  have g1: "outcome (requestWithRetry (metadataService tolerant ''U'') (jitter tolerant)) = Inr (''U'', ''Map'', None)"
    by (simp add: tolerant_def table_remote_def steady_outcome)
  have g2: "references_of tolerant ''U'' None = [''A'']"
    by (simp add: references_of_def evaluate tolerant_def)
  have g3: "findAllDependenciesRecursive tolerant [0, 0, 0, 0] ''U'' = Settled tolerant_settled"
    by (simp add: evaluate tolerant_def tolerant_settled_def)
  have g4: "MetadataLookup ''U'' \<in> set (issued tolerant_settled)"
    by (simp add: tolerant_settled_def)
  note refused = missing_version_leaf [OF h1, of "[0, 0, 0, 0]" "''R''" unversioned_settled "AxiosError (Some 400)"]
  note answered = missing_version_leaf [OF g1, of "[0, 0, 0, 0]" "''U''" tolerant_settled]
  from refused h2 h3 h4
  have a: "(''U'', \<lparr>id' = ''U'', name = ''U'', type' = ''Map''\<rparr>) \<in> set (nodesMap unversioned_settled)"
    and b: "ReferenceLookup ''U'' None \<in> set (issued unversioned_settled)"
    and c: "\<forall>e \<in> set (edges unversioned_settled). source e \<noteq> ''U''"
    and d: "resume unversioned (AwaitDependencies ''U'' None) unversioned_settled = Inr unversioned_settled"
    by blast+
  from c have c': "''U'' \<notin> set (map source (edges unversioned_settled))" by auto
  from answered g3 g4
  have e: "(''U'', \<lparr>id' = ''U'', name = ''U'', type' = ''Map''\<rparr>) \<in> set (nodesMap tolerant_settled)"
    and f: "ReferenceLookup ''U'' None \<in> set (issued tolerant_settled)"
    and g: "\<forall>d \<in> set (references_of tolerant ''U'' None). \<lparr>source = ''U'', target = d\<rparr> \<in> set (edges tolerant_settled)"
    by blast+
  from g g2 have g': "\<lparr>source = ''U'', target = ''A''\<rparr> \<in> set (edges tolerant_settled)" by simp
  from h1 h2 h3 h4 a b c' d g1 g2 g3 g4 e f g' show ?thesis by blast
qed

section \<open>Properties of the reference resolver\<close>

lemma flatten_comprehension:
  "concat (map (\<lambda>r. case r of None \<Rightarrow> [] | Some references \<Rightarrow> references) result) =
   [componentId. Some references \<leftarrow> result, componentId \<leftarrow> references]"
  by (induction result) (auto split: option.splits)

lemma exhausted_outcome:
  assumes "\<forall>i. 1 \<le> i \<and> i \<le> MAX_RETRIES \<longrightarrow> transient (requestFn i)"
  shows "\<exists>status. outcome (requestWithRetry requestFn rnd) =
           Inl (ApiError (exhausted_message status) (Some status) (Some 5))"
proof -
  from assms have "transient (requestFn MAX_RETRIES)" by (simp add: MAX_RETRIES_def)
  then obtain status where s: "requestFn MAX_RETRIES = Inl (AxiosError (Some status))" "retryable status"
    by (auto simp: transient_iff)
  have "retry_loop requestFn rnd 1 [] =
        retry_loop requestFn rnd (1 + 4) ([] @ map (delayMs rnd) [1..<1 + 4])"
    using assms by (intro retry_loop_run) (auto simp: MAX_RETRIES_def)
  also have "\<dots> = \<lparr>outcome = Inl (ApiError (exhausted_message status) (Some status) (Some 5)),
               calls = 5, delays = map (delayMs rnd) [1..<5]\<rparr>"
    using retry_loop_exhausted [of requestFn status rnd "map (delayMs rnd) [1..<5]"] s
    by (simp add: MAX_RETRIES_def)
  finally show ?thesis by (auto simp: requestWithRetry_def)
qed

text \<open>
  Claim C6. For every identifier and version the reference resolver returns a list and
  never an error: a failed request (a network failure, any status, the \<^verbatim>\<open>ApiError\<close> of
  exhausted retries) and a body that cannot be flattened both give the empty list; a body
  without \<^verbatim>\<open>result\<close> gives the empty list; otherwise the result groups are flattened in
  order into the list of their referenced identifiers, a group without \<^verbatim>\<open>references\<close>
  contributing nothing. In particular, five transient failures in a row give the empty
  list.
\<close>

theorem reference_resolver_recovers:
  "getDependencies r c v =
     Inr (case outcome (requestWithRetry (referenceService r c v) (jitter r)) of
            Inl err \<Rightarrow> []
          | Inr Malformed \<Rightarrow> []
          | Inr (QueryResult None) \<Rightarrow> []
          | Inr (QueryResult (Some result)) \<Rightarrow>
              [componentId. Some references \<leftarrow> result, componentId \<leftarrow> references])
   \<and> ((\<forall>i. 1 \<le> i \<and> i \<le> MAX_RETRIES \<longrightarrow> transient (referenceService r c v i))
        \<longrightarrow> getDependencies r c v = Inr [])"
proof (intro conjI impI)
  show "getDependencies r c v =
     Inr (case outcome (requestWithRetry (referenceService r c v) (jitter r)) of
            Inl err \<Rightarrow> []
          | Inr Malformed \<Rightarrow> []
          | Inr (QueryResult None) \<Rightarrow> []
          | Inr (QueryResult (Some result)) \<Rightarrow>
              [componentId. Some references \<leftarrow> result, componentId \<leftarrow> references])"
    by (simp add: getDependencies_def flatten_def flatten_comprehension
        split: sum.splits QueryBody.splits option.splits)
next
  assume "\<forall>i. 1 \<le> i \<and> i \<le> MAX_RETRIES \<longrightarrow> transient (referenceService r c v i)"
  from exhausted_outcome [OF this, of "jitter r"] show "getDependencies r c v = Inr []"
    by (auto simp: getDependencies_def)
qed

theorem reference_resolver_recovers_witness:
  "transient (referenceService congested ''busy'' (Some 1) MAX_RETRIES)
   \<and> getDependencies congested ''busy'' (Some 1) = Inr []
   \<and> getDependencies congested ''odd'' (Some 1) = Inr []
   \<and> getDependencies congested ''nested'' (Some 1) = Inr [''A'', ''B'', ''C'']"
proof -
  have h: "\<forall>i. 1 \<le> i \<and> i \<le> MAX_RETRIES \<longrightarrow> transient (referenceService congested ''busy'' (Some 1) i)"
    by (simp add: congested_def transient_def retryable_def)
  have a: "getDependencies congested ''busy'' (Some 1) = Inr []"
    using reference_resolver_recovers [of congested "''busy''" "Some 1", THEN conjunct2, THEN mp, OF h] .
  have b: "getDependencies congested ''odd'' (Some 1) = Inr []"
    using reference_resolver_recovers [of congested "''odd''" "Some 1", THEN conjunct1]
    by (simp add: congested_def steady_outcome)
  have c: "getDependencies congested ''nested'' (Some 1) = Inr [''A'', ''B'', ''C'']"
    using reference_resolver_recovers [of congested "''nested''" "Some 1", THEN conjunct1]
    by (simp add: congested_def steady_outcome)
  from h have "transient (referenceService congested ''busy'' (Some 1) MAX_RETRIES)"
    by (simp add: MAX_RETRIES_def)
  with a b c show ?thesis by blast
qed

section \<open>Cycles\<close>

lemma four_choices: "4 \<le> length xs \<Longrightarrow> \<exists>a b c d ys. xs = a # b # c # d # ys"
  by (auto simp: Suc_le_length_iff eval_nat_numeral)

lemma two_choices: "4 \<le> length xs \<Longrightarrow> \<exists>a b ys. xs = a # b # ys"
  by (auto simp: Suc_le_length_iff eval_nat_numeral)

lemma run_done: "pending s = [] \<Longrightarrow> run r schedule s = Settled s"
  by (cases schedule) auto

text \<open>
  The cycle alone. When \<open>A\<close> and \<open>B\<close> both resolve, the references of \<open>A\<close> are exactly
  \<open>[B]\<close> and those of \<open>B\<close> exactly \<open>[A]\<close> (with \<open>B = A\<close> this is the self-edge),
  the discovery from \<open>A\<close> settles
  under every schedule of at least four choices, with the nodes \<open>A\<close> and \<open>B\<close>, the edges
  \<open>A \<rightarrow> B\<close> and \<open>B \<rightarrow> A\<close> once each, and one metadata and one reference lookup per node.
  And in every state a run from \<open>A\<close> reaches, an invocation that awaits the references
  of an identifier has already inserted that identifier into the node map.
\<close>

lemma cycle_safety:
  assumes "getComponentMetadata r A = Inr (Some mdA)"
    and "getComponentMetadata r B = Inr (Some mdB)"
    and "getDependencies r A (version mdA) = Inr [B]"
    and "getDependencies r B (version mdB) = Inr [A]"
    and "4 \<le> length schedule"
  shows "findAllDependenciesRecursive r schedule A =
           Settled
            \<lparr>nodesMap =
               remdups [(A, \<lparr>id' = id' mdA, name = name mdA, type' = type' mdA\<rparr>),
                        (B, \<lparr>id' = id' mdB, name = name mdB, type' = type' mdB\<rparr>)],
             edges = remdups [\<lparr>source = A, target = B\<rparr>, \<lparr>source = B, target = A\<rparr>],
             pending = [],
             issued =
               remdups [MetadataLookup A, ReferenceLookup A (version mdA),
                        MetadataLookup B, ReferenceLookup B (version mdB)]\<rparr>
       \<and> (\<forall>prefix s. reached (findAllDependenciesRecursive r prefix A) = Some s \<longrightarrow>
            (\<forall>c v. AwaitDependencies c v \<in> set (pending s) \<longrightarrow> Map_has (nodesMap s) c))"
proof (intro conjI allI impI)
  show "findAllDependenciesRecursive r schedule A =
           Settled
            \<lparr>nodesMap =
               remdups [(A, \<lparr>id' = id' mdA, name = name mdA, type' = type' mdA\<rparr>),
                        (B, \<lparr>id' = id' mdB, name = name mdB, type' = type' mdB\<rparr>)],
             edges = remdups [\<lparr>source = A, target = B\<rparr>, \<lparr>source = B, target = A\<rparr>],
             pending = [],
             issued =
               remdups [MetadataLookup A, ReferenceLookup A (version mdA),
                        MetadataLookup B, ReferenceLookup B (version mdB)]\<rparr>"
  proof (cases "A = B")
    case True
    with assms(1,2) have same: "mdB = mdA" by simp
    from assms(5) obtain c1 c2 rest where "schedule = c1 # c2 # rest"
      using two_choices by blast
    with True same assms(1,3) show ?thesis
      by (simp add: findAllDependenciesRecursive_def enter_def initial_def step_def Map_has_def
          visit_dependency_def run_done)
  next
    case False
    from assms(5) obtain c1 c2 c3 c4 rest where "schedule = c1 # c2 # c3 # c4 # rest"
      using four_choices by blast
    with False assms(1-4) show ?thesis
      by (simp add: findAllDependenciesRecursive_def enter_def initial_def step_def Map_has_def
          visit_dependency_def run_done)
  qed
next
  fix prefix s c v
  assume "reached (findAllDependenciesRecursive r prefix A) = Some s"
    and "AwaitDependencies c v \<in> set (pending s)"
  with reached_invariants(3) show "Map_has (nodesMap s) c"
    unfolding sources_present_def by blast
qed

lemma cycle_safety_example:
  "findAllDependenciesRecursive cycle [3, 1, 4, 1, 5] ''A'' =
     Settled
      \<lparr>nodesMap =
         [(''A'', \<lparr>id' = ''A'', name = ''a'', type' = ''Process''\<rparr>),
          (''B'', \<lparr>id' = ''B'', name = ''b'', type' = ''Connector''\<rparr>)],
       edges = [\<lparr>source = ''A'', target = ''B''\<rparr>, \<lparr>source = ''B'', target = ''A''\<rparr>],
       pending = [],
       issued =
         [MetadataLookup ''A'', ReferenceLookup ''A'' (Some 1),
          MetadataLookup ''B'', ReferenceLookup ''B'' (Some 2)]\<rparr>
   \<and> findAllDependenciesRecursive self_loop [3, 1, 4, 1, 5] ''A'' =
     Settled
      \<lparr>nodesMap = [(''A'', \<lparr>id' = ''A'', name = ''a'', type' = ''Process''\<rparr>)],
       edges = [\<lparr>source = ''A'', target = ''A''\<rparr>],
       pending = [],
       issued = [MetadataLookup ''A'', ReferenceLookup ''A'' (Some 1)]\<rparr>
   \<and> reached (findAllDependenciesRecursive cycle [0] ''A'') =
       Some \<lparr>nodesMap = [(''A'', \<lparr>id' = ''A'', name = ''a'', type' = ''Process''\<rparr>)], edges = [],
             pending = [AwaitDependencies ''A'' (Some 1)],
             issued = [MetadataLookup ''A'', ReferenceLookup ''A'' (Some 1)]\<rparr>
   \<and> Map_has [(''A'', \<lparr>id' = ''A'', name = ''a'', type' = ''Process''\<rparr>)] ''A''"
proof -
  have a: "getComponentMetadata cycle ''A'' =
      Inr (Some \<lparr>id' = ''A'', name = ''a'', type' = ''Process'', version = Some 1\<rparr>)"
    and b: "getComponentMetadata cycle ''B'' =
      Inr (Some \<lparr>id' = ''B'', name = ''b'', type' = ''Connector'', version = Some 2\<rparr>)"
    and ab: "getDependencies cycle ''A''
       (version \<lparr>id' = ''A'', name = ''a'', type' = ''Process'', version = Some 1\<rparr>) = Inr [''B'']"
    and ba: "getDependencies cycle ''B''
       (version \<lparr>id' = ''B'', name = ''b'', type' = ''Connector'', version = Some 2\<rparr>) = Inr [''A'']"
    by (simp_all add: evaluate cycle_def)
  have s: "getComponentMetadata self_loop ''A'' =
      Inr (Some \<lparr>id' = ''A'', name = ''a'', type' = ''Process'', version = Some 1\<rparr>)"
    and ss: "getDependencies self_loop ''A''
       (version \<lparr>id' = ''A'', name = ''a'', type' = ''Process'', version = Some 1\<rparr>) = Inr [''A'']"
    by (simp_all add: evaluate self_loop_def)
  have l: "4 \<le> length [3, 1, 4, 1, 5 :: nat]" by simp
  have early: "reached (findAllDependenciesRecursive cycle [0] ''A'') =
       Some \<lparr>nodesMap = [(''A'', \<lparr>id' = ''A'', name = ''a'', type' = ''Process''\<rparr>)], edges = [],
             pending = [AwaitDependencies ''A'' (Some 1)],
             issued = [MetadataLookup ''A'', ReferenceLookup ''A'' (Some 1)]\<rparr>"
    by (simp add: evaluate cycle_def)
  from cycle_safety [OF a b ab ba l, THEN conjunct2] early
  have "Map_has [(''A'', \<lparr>id' = ''A'', name = ''a'', type' = ''Process''\<rparr>)] ''A''"
    by fastforce
  with cycle_safety [OF a b ab ba l, THEN conjunct1] cycle_safety [OF s s ss ss l, THEN conjunct1] early
  show ?thesis by simp
qed

lemma six_choices: "6 \<le> length xs \<Longrightarrow> \<exists>a b c d e f ys. xs = a # b # c # d # e # f # ys"
  by (auto simp: Suc_le_length_iff eval_nat_numeral)

lemma even_choice: "even (choice::nat) \<Longrightarrow> choice mod Suc (Suc 0) = 0"
  by presburger

lemma odd_choice: "odd (choice::nat) \<Longrightarrow> choice mod Suc (Suc 0) = Suc 0"
  by presburger

text \<open>
  When two result groups of \<open>A\<close> both name \<open>B\<close>, the two visits of \<open>B\<close> are started before
  either is awaited, and every order in which the remote calls settle ends in the same
  graph, with the edge from \<open>B\<close> to \<open>A\<close> twice.
\<close>

lemma doubled_cycle_every_order:
  assumes "6 \<le> length schedule"
  shows "findAllDependenciesRecursive doubled_cycle schedule ''A'' =
     Settled
      \<lparr>nodesMap =
         [(''A'', \<lparr>id' = ''A'', name = ''a'', type' = ''Process''\<rparr>),
          (''B'', \<lparr>id' = ''B'', name = ''b'', type' = ''Connector''\<rparr>)],
       edges =
         [\<lparr>source = ''A'', target = ''B''\<rparr>, \<lparr>source = ''A'', target = ''B''\<rparr>,
          \<lparr>source = ''B'', target = ''A''\<rparr>, \<lparr>source = ''B'', target = ''A''\<rparr>],
       pending = [],
       issued =
         [MetadataLookup ''A'', ReferenceLookup ''A'' (Some 1),
          MetadataLookup ''B'', MetadataLookup ''B'',
          ReferenceLookup ''B'' (Some 2), ReferenceLookup ''B'' (Some 2)]\<rparr>"
proof -
  from assms obtain c1 c2 c3 c4 c5 c6 rest where sch: "schedule = c1 # c2 # c3 # c4 # c5 # c6 # rest"
    using six_choices by blast
  show ?thesis
    unfolding sch
    by (cases "even c3"; cases "even c4"; cases "even c5")
      (simp_all add: evaluate doubled_cycle_def run_done even_choice odd_choice Let_def)
qed

text \<open>
  Claim C2, at the failing inputs. Both graphs contain the cycle of \<open>A\<close> and \<open>B\<close>, and \<open>B\<close>
  refers to \<open>A\<close> once. In the first, the two visits of \<open>B\<close> are started by the same call of
  \<^verbatim>\<open>dependencyIds.map\<close>; in the second, the visit of \<open>B\<close> started from \<open>C\<close> arrives while
  the one started from \<open>A\<close> still awaits its metadata. Each time both visits pass the test
  of line 161, the discovery settles with the nodes \<open>A\<close> and \<open>B\<close> (and \<open>C\<close>), and the edge
  from \<open>B\<close> to \<open>A\<close> is recorded twice.
\<close>

theorem cycle_duplicate_edges:
  "findAllDependenciesRecursive doubled_cycle [0, 0, 0, 0, 0, 0] ''A'' =
     Settled
      \<lparr>nodesMap =
         [(''A'', \<lparr>id' = ''A'', name = ''a'', type' = ''Process''\<rparr>),
          (''B'', \<lparr>id' = ''B'', name = ''b'', type' = ''Connector''\<rparr>)],
       edges =
         [\<lparr>source = ''A'', target = ''B''\<rparr>, \<lparr>source = ''A'', target = ''B''\<rparr>,
          \<lparr>source = ''B'', target = ''A''\<rparr>, \<lparr>source = ''B'', target = ''A''\<rparr>],
       pending = [],
       issued =
         [MetadataLookup ''A'', ReferenceLookup ''A'' (Some 1),
          MetadataLookup ''B'', MetadataLookup ''B'',
          ReferenceLookup ''B'' (Some 2), ReferenceLookup ''B'' (Some 2)]\<rparr>
   \<and> references_of doubled_cycle ''B'' (Some 2) = [''A'']
   \<and> findAllDependenciesRecursive detour_cycle [0, 0, 1, 1, 0, 0, 0, 0] ''A'' =
     Settled
      \<lparr>nodesMap =
         [(''A'', \<lparr>id' = ''A'', name = ''a'', type' = ''Process''\<rparr>),
          (''C'', \<lparr>id' = ''C'', name = ''c'', type' = ''Map''\<rparr>),
          (''B'', \<lparr>id' = ''B'', name = ''b'', type' = ''Connector''\<rparr>)],
       edges =
         [\<lparr>source = ''A'', target = ''B''\<rparr>, \<lparr>source = ''A'', target = ''C''\<rparr>,
          \<lparr>source = ''C'', target = ''B''\<rparr>, \<lparr>source = ''B'', target = ''A''\<rparr>,
          \<lparr>source = ''B'', target = ''A''\<rparr>],
       pending = [],
       issued =
         [MetadataLookup ''A'', ReferenceLookup ''A'' (Some 1),
          MetadataLookup ''B'', MetadataLookup ''C'',
          ReferenceLookup ''C'' (Some 3), MetadataLookup ''B'',
          ReferenceLookup ''B'' (Some 2), ReferenceLookup ''B'' (Some 2)]\<rparr>
   \<and> references_of detour_cycle ''B'' (Some 2) = [''A'']"
  by (simp add: evaluate references_of_def doubled_cycle_def detour_cycle_def)

section \<open>The output document\<close>

lemma example_main:
  "main example [0, 0, 0, 0, 0] ''R'' stale_disk =
     Some \<lparr>exit_status = 0, disk_after = stale_disk\<lparr>files := (files stale_disk)(OUTPUT_FILE \<mapsto> example_document)\<rparr>,
           summary = Some (2, 2), fatal = None\<rparr>"
  by (simp add: main_def example_run writeFile_def stale_disk_def example_settled_def Map_values_def
      stringify_def json_of_Node_def json_of_Edge_def example_document_def)

text \<open>
  Claim C8, as stated, fails on the key of the third field: in the document of the
  example run every node has the keys \<^verbatim>\<open>id\<close>, \<^verbatim>\<open>name\<close> and \<^verbatim>\<open>type\<close>, and none has a key
  \<^verbatim>\<open>category\<close>.
\<close>

theorem document_keys_counterexample:
  "written (main example [0, 0, 0, 0, 0] ''R'' stale_disk) = Some example_document
   \<and> map keys (elements example_document ''nodes'') =
       [[''id'', ''name'', ''type''], [''id'', ''name'', ''type'']]
   \<and> ''category'' \<notin> set (concat (map keys (elements example_document ''nodes'')))"
  by (simp add: written_def example_main example_document_def elements_def keys_def)

lemma main_success:
  assumes "main r schedule rootId d = Some e" and "exit_status e = 0"
  obtains s where "findAllDependenciesRecursive r schedule rootId = Settled s"
    and "writable d OUTPUT_FILE"
    and "disk_after e = d\<lparr>files := (files d)(OUTPUT_FILE \<mapsto>
           stringify \<lparr>nodes = Map_values (nodesMap s), edges' = edges s\<rparr>)\<rparr>"
    and "summary e = Some (length (Map_values (nodesMap s)), length (edges s))"
    and "fatal e = None"
  using assms
  by (auto simp: main_def writeFile_def Let_def split: run_result.splits if_splits)

lemma settled_node_ids:
  assumes "findAllDependenciesRecursive r schedule rootId = Settled s"
  shows "set (Map_keys (nodesMap s)) =
         {c. MetadataLookup c \<in> set (issued s) \<and> (\<exists>md. getComponentMetadata r c = Inr (Some md))}"
proof -
  note inv = reached_invariants [OF settled_reached [OF assms]]
  note none = settled_no_pending [OF assms]
  show ?thesis
  proof (intro set_eqI iffI)
    fix c assume "c \<in> set (Map_keys (nodesMap s))"
    then have has: "Map_has (nodesMap s) c" by (simp add: Map_has_def)
    then obtain n where "(c, n) \<in> set (nodesMap s)" by (blast dest: Map_has_entry)
    with inv(2) have "\<exists>md. getComponentMetadata r c = Inr (Some md)"
      unfolding nodes_resolved_def by fastforce
    moreover from inv(6) has have "MetadataLookup c \<in> set (issued s)"
      unfolding lookups_accounted_def by blast
    ultimately show "c \<in> {c. MetadataLookup c \<in> set (issued s) \<and> (\<exists>md. getComponentMetadata r c = Inr (Some md))}"
      by blast
  next
    fix c assume "c \<in> {c. MetadataLookup c \<in> set (issued s) \<and> (\<exists>md. getComponentMetadata r c = Inr (Some md))}"
    with inv(6) none have "Map_has (nodesMap s) c"
      unfolding lookups_accounted_def by auto
    then show "c \<in> set (Map_keys (nodesMap s))" by (simp add: Map_has_def)
  qed
qed

lemma elements_nodes:
  "elements (stringify g) ''nodes'' = map json_of_Node (nodes g)"
  by (simp add: elements_def stringify_def)

lemma elements_edges:
  "elements (stringify g) ''edges'' = map json_of_Edge (edges' g)"
  by (simp add: elements_def stringify_def)

lemma keys_nodes: "map keys (map json_of_Node ns) = replicate (length ns) [''id'', ''name'', ''type'']"
  by (induction ns) (auto simp: keys_def json_of_Node_def)

lemma keys_edges: "map keys (map json_of_Edge es) = replicate (length es) [''source'', ''target'']"
  by (induction es) (auto simp: keys_def json_of_Edge_def)

lemma Map_values_length: "length (Map_values m) = length m"
  by (simp add: Map_values_def)

text \<open>
  Claim C8, amended. A run that ends with exit status 0 has settled, and it leaves the disk
  as it was but for the output file, whose content is now the document of the graph,
  whatever it was before. The document has the members \<^verbatim>\<open>nodes\<close> and \<^verbatim>\<open>edges\<close>; every
  node has the keys \<^verbatim>\<open>id\<close>, \<^verbatim>\<open>name\<close>, \<^verbatim>\<open>type\<close> and every edge the keys \<^verbatim>\<open>source\<close>,
  \<^verbatim>\<open>target\<close>. Read back, it has as many nodes as there are distinct identifiers whose
  metadata was looked up and resolved, and as many edges as the traversal recorded, which
  is the total number of references found by the reference lookups it issued.
\<close>

theorem graph_document:
  assumes "main r schedule rootId d = Some e" and "exit_status e = 0"
  shows "\<exists>s doc. findAllDependenciesRecursive r schedule rootId = Settled s
     \<and> doc = stringify \<lparr>nodes = Map_values (nodesMap s), edges' = edges s\<rparr>
     \<and> files (disk_after e) = (files d)(OUTPUT_FILE \<mapsto> doc)
     \<and> keys doc = [''nodes'', ''edges'']
     \<and> map keys (elements doc ''nodes'') = replicate (length (nodesMap s)) [''id'', ''name'', ''type'']
     \<and> map keys (elements doc ''edges'') = replicate (length (edges s)) [''source'', ''target'']
     \<and> length (elements doc ''nodes'') =
         card {c. MetadataLookup c \<in> set (issued s) \<and> (\<exists>md. getComponentMetadata r c = Inr (Some md))}
     \<and> length (elements doc ''edges'') = length (edges s)
     \<and> length (edges s) = sum_list (map (references_found r) (issued s))"
proof -
  from assms obtain s where s: "findAllDependenciesRecursive r schedule rootId = Settled s"
    and after: "disk_after e = d\<lparr>files := (files d)(OUTPUT_FILE \<mapsto>
           stringify \<lparr>nodes = Map_values (nodesMap s), edges' = edges s\<rparr>)\<rparr>"
    by (rule main_success)
  note inv = reached_invariants [OF settled_reached [OF s]]
  define doc where "doc = stringify \<lparr>nodes = Map_values (nodesMap s), edges' = edges s\<rparr>"
  have f: "files (disk_after e) = (files d)(OUTPUT_FILE \<mapsto> doc)"
    using after by (simp add: doc_def)
  have k: "keys doc = [''nodes'', ''edges'']"
    by (simp add: doc_def stringify_def keys_def)
  have kn: "map keys (elements doc ''nodes'') = replicate (length (nodesMap s)) [''id'', ''name'', ''type'']"
    by (simp only: doc_def elements_nodes keys_nodes GraphData.select_convs Map_values_length)
  have ke: "map keys (elements doc ''edges'') = replicate (length (edges s)) [''source'', ''target'']"
    by (simp only: doc_def elements_edges keys_edges GraphData.select_convs)
  have "card (set (Map_keys (nodesMap s))) = length (Map_keys (nodesMap s))"
    using inv(1) unfolding keys_distinct_def by (rule distinct_card)
  then have n: "length (elements doc ''nodes'') =
         card {c. MetadataLookup c \<in> set (issued s) \<and> (\<exists>md. getComponentMetadata r c = Inr (Some md))}"
    by (simp add: doc_def elements_nodes Map_values_def settled_node_ids [OF s])
  have m: "length (elements doc ''edges'') = length (edges s)"
    by (simp add: doc_def elements_edges)
  have c: "length (edges s) = sum_list (map (references_found r) (issued s))"
    using inv(7) settled_no_pending [OF s] by (simp add: edges_counted_def)
  from s doc_def f k kn ke n m c show ?thesis by blast
qed

theorem graph_document_witness:
  "main example [0, 0, 0, 0, 0] ''R'' stale_disk =
     Some \<lparr>exit_status = 0, disk_after = stale_disk\<lparr>files := (files stale_disk)(OUTPUT_FILE \<mapsto> example_document)\<rparr>,
           summary = Some (2, 2), fatal = None\<rparr>
   \<and> length (elements example_document ''nodes'') = 2
   \<and> length (elements example_document ''edges'') = 2
   \<and> card {c. MetadataLookup c \<in> set (issued example_settled) \<and>
              (\<exists>md. getComponentMetadata example c = Inr (Some md))} = 2
   \<and> sum_list (map (references_found example) (issued example_settled)) = 2"
proof -
  have z: "exit_status \<lparr>exit_status = 0, disk_after = stale_disk\<lparr>files := (files stale_disk)(OUTPUT_FILE \<mapsto> example_document)\<rparr>,
           summary = Some (2, 2), fatal = None\<rparr> = 0"
    by simp
  from graph_document [OF example_main z] obtain s doc where
    s: "findAllDependenciesRecursive example [0, 0, 0, 0, 0] ''R'' = Settled s"
    and doc: "doc = stringify \<lparr>nodes = Map_values (nodesMap s), edges' = edges s\<rparr>"
    and n: "length (elements doc ''nodes'') =
         card {c. MetadataLookup c \<in> set (issued s) \<and> (\<exists>md. getComponentMetadata example c = Inr (Some md))}"
    and m: "length (elements doc ''edges'') = length (edges s)"
    and c: "length (edges s) = sum_list (map (references_found example) (issued s))"
    by blast
  from s example_run have eq: "s = example_settled" by simp
  have d: "doc = example_document"
    unfolding doc eq
    by (simp add: example_settled_def Map_values_def stringify_def json_of_Node_def json_of_Edge_def
        example_document_def)
  have l: "length (elements example_document ''nodes'') = 2" "length (elements example_document ''edges'') = 2"
    by (simp_all add: example_document_def elements_def)
  have e2: "length (edges example_settled) = 2" by (simp add: example_settled_def)
  from n m c l e2 example_main show ?thesis unfolding d eq by simp
qed

section \<open>Fatal runs\<close>













section \<open>Concurrent visits of one identifier\<close>

text \<open>
  Claim C1, at the failing input. \<open>R\<close> refers to \<open>A\<close> and \<open>B\<close>, both refer to \<open>C\<close>, and
  \<open>C\<close> refers to the missing \<open>D\<close>. When the remote calls settle in the order in which they
  were issued, the second visit of \<open>C\<close> passes the test of line 161 while the metadata of
  the first is still awaited: \<open>C\<close> is one node, but its metadata and its references are
  looked up twice each, and the edge from \<open>C\<close> to \<open>D\<close> is recorded twice.
\<close>

theorem dedup_race:
  "findAllDependenciesRecursive diamond [0, 0, 0, 0, 0, 0, 0, 0, 0, 0, 0, 0] ''R'' =
     Settled
      \<lparr>nodesMap =
         [(''R'', \<lparr>id' = ''R'', name = ''Root'', type' = ''Process''\<rparr>),
          (''A'', \<lparr>id' = ''A'', name = ''A'', type' = ''Connector''\<rparr>),
          (''B'', \<lparr>id' = ''B'', name = ''B'', type' = ''Connector''\<rparr>),
          (''C'', \<lparr>id' = ''C'', name = ''C'', type' = ''Map''\<rparr>)],
       edges =
         [\<lparr>source = ''R'', target = ''A''\<rparr>, \<lparr>source = ''R'', target = ''B''\<rparr>,
          \<lparr>source = ''A'', target = ''C''\<rparr>, \<lparr>source = ''B'', target = ''C''\<rparr>,
          \<lparr>source = ''C'', target = ''D''\<rparr>, \<lparr>source = ''C'', target = ''D''\<rparr>],
       pending = [],
       issued =
         [MetadataLookup ''R'', ReferenceLookup ''R'' (Some 1),
          MetadataLookup ''A'', MetadataLookup ''B'',
          ReferenceLookup ''A'' (Some 1), ReferenceLookup ''B'' (Some 1),
          MetadataLookup ''C'', MetadataLookup ''C'',
          ReferenceLookup ''C'' (Some 1), ReferenceLookup ''C'' (Some 1),
          MetadataLookup ''D'', MetadataLookup ''D'']\<rparr>"
  by (simp add: evaluate diamond_def)

end
